theory Spec2Isabelle
  imports Complex_Main
begin

section \<open>The load-test driver (testing/test.go): data model\<close>

text \<open>
  Go's \<open>int\<close> is modelled as \<open>int\<close>: every integer the driver computes is a counter
  bounded by the length of a slice, or a status code or identifier copied unchanged, so
  no operation can wrap. \<open>float64\<close> latencies are modelled as \<open>real\<close>: rounding is not
  modelled, so the sum and the average of the latencies are exact here. The properties
  proved below are about counts, flags, status codes and the order of the records, and
  none of them rests on how a latency is rounded.
\<close>

definition NumCreateCart :: nat where "NumCreateCart = 50"
definition NumAddItems :: nat where "NumAddItems = 50"
definition NumGetCart :: nat where "NumGetCart = 50"
definition TotalOps :: nat where "TotalOps = NumCreateCart + NumAddItems + NumGetCart"
definition NumWorkers :: nat where "NumWorkers = 10"

record TestResult =
  Operation :: string
  ResponseTime :: real
  Success :: bool
  StatusCode :: int
  Timestamp :: string
  CustomerID :: int

record OpStats =
  Count :: int
  Successful :: int
  Failed :: int
  AvgResponseTime :: real
  MinResponseTime :: real
  MaxResponseTime :: real
  TotalResponseTime :: real

record TestOutput =
  Results :: "TestResult list"
  Statistics :: "string \<rightharpoonup> OpStats"

section \<open>addResult and calculateStatistics\<close>

text \<open>
  The global slice \<open>results\<close> is the only mutable state of the driver. Every function
  that touches it takes its value; \<open>addResult\<close> returns the new value (the append
  happens under \<open>resultsMutex\<close>, so it is atomic).
\<close>

definition addResult :: "TestResult \<Rightarrow> TestResult list \<Rightarrow> TestResult list" where
  "addResult result results = results @ [result]"

text \<open>\<open>stat := OpStats{MinResponseTime: 999999}\<close>: every other field is Go's zero value.\<close>

definition new_stat :: OpStats where
  "new_stat = \<lparr>Count = 0, Successful = 0, Failed = 0, AvgResponseTime = 0,
                MinResponseTime = 999999, MaxResponseTime = 0, TotalResponseTime = 0\<rparr>"

text \<open>The body of the inner loop for a record whose operation matches (lines 295-309).\<close>

definition tally :: "TestResult \<Rightarrow> OpStats \<Rightarrow> OpStats" where
  "tally result stat =
     (let s1 = stat\<lparr>Count := Count stat + 1\<rparr>;
          s2 = s1\<lparr>TotalResponseTime := TotalResponseTime s1 + ResponseTime result\<rparr>;
          s3 = (if Success result then s2\<lparr>Successful := Successful s2 + 1\<rparr>
                else s2\<lparr>Failed := Failed s2 + 1\<rparr>);
          s4 = (if ResponseTime result < MinResponseTime s3
                then s3\<lparr>MinResponseTime := ResponseTime result\<rparr> else s3);
          s5 = (if ResponseTime result > MaxResponseTime s4
                then s4\<lparr>MaxResponseTime := ResponseTime result\<rparr> else s4)
      in s5)"

text \<open>The inner loop \<open>for _, result := range results\<close>.\<close>

fun scan_results :: "string \<Rightarrow> TestResult list \<Rightarrow> OpStats \<Rightarrow> OpStats" where
  "scan_results opType [] stat = stat"
| "scan_results opType (result # rest) stat =
     scan_results opType rest (if Operation result = opType then tally result stat else stat)"

text \<open>One round of the outer loop: scan, then the guarded average.\<close>

definition stat_for :: "string \<Rightarrow> TestResult list \<Rightarrow> OpStats" where
  "stat_for opType results =
     (let stat = scan_results opType results new_stat
      in if Count stat > 0
         then stat\<lparr>AvgResponseTime := TotalResponseTime stat / of_int (Count stat)\<rparr>
         else stat)"

text \<open>The outer loop \<open>for _, opType := range opTypes\<close>; \<open>stats[opType] = stat\<close> is unconditional.\<close>

fun each_opType ::
  "string list \<Rightarrow> TestResult list \<Rightarrow> (string \<rightharpoonup> OpStats) \<Rightarrow> (string \<rightharpoonup> OpStats)" where
  "each_opType [] results stats = stats"
| "each_opType (opType # rest) results stats =
     each_opType rest results (stats(opType \<mapsto> stat_for opType results))"

definition opTypes :: "string list" where
  "opTypes = [''create_cart'', ''add_items'', ''get_cart'']"

text \<open>
  \<open>calculateStatistics\<close> reads the global \<open>results\<close> and builds a fresh map; it returns
  the map together with the value of \<open>results\<close> it leaves behind.
\<close>

definition calculateStatistics ::
  "TestResult list \<Rightarrow> (string \<rightharpoonup> OpStats) \<times> TestResult list" where
  "calculateStatistics results = (each_opType opTypes results Map.empty, results)"

section \<open>The timed HTTP operations\<close>

text \<open>
  What one call of \<open>httpClient.Get\<close> or \<open>httpClient.Post\<close> hands back to the driver,
  with the two clock readings the caller takes after it: \<open>resp\<close> is the status code of
  the response, \<open>None\<close> for a nil response; \<open>err\<close> is \<open>None\<close> for a nil error;
  \<open>elapsed\<close> is \<open>time.Since(startTime).Seconds()\<close> read when the call has returned;
  \<open>now\<close> is the formatted \<open>time.Now()\<close>. The request body (customer id, random
  product id and quantity) only influences what the service answers, which is an input here.
\<close>

record http_call =
  resp :: "int option"
  err :: "string option"
  elapsed :: real
  now :: string

text \<open>
  net/http returns a non-nil response or a non-nil error (both when a redirect policy
  fails). The code relies on it: \<open>resp.StatusCode\<close> behind \<open>err == nil\<close> would
  dereference nil otherwise, which the model reports as \<open>None\<close> (a panic).
\<close>

definition client_contract :: "http_call \<Rightarrow> bool" where
  "client_contract c = (err c \<noteq> None \<or> resp c \<noteq> None)"

definition testConnectivity :: "http_call \<Rightarrow> bool option" where
  "testConnectivity c =
     (if err c \<noteq> None then Some False
      else case resp c of None \<Rightarrow> None | Some code \<Rightarrow> Some (code = 200))"

definition createCart :: "http_call \<Rightarrow> int \<Rightarrow> TestResult list \<Rightarrow> TestResult list option" where
  "createCart c customerID results =
     (if err c = None \<and> resp c = None then None
      else
        let duration = elapsed c * 1000;
            result = \<lparr>Operation = ''create_cart'', ResponseTime = duration,
                      Success = (err c = None \<and> (resp c = Some 200 \<or> resp c = Some 201)),
                      StatusCode = 0, Timestamp = now c, CustomerID = customerID\<rparr>;
            result' = (case resp c of None \<Rightarrow> result
                       | Some code \<Rightarrow> result\<lparr>StatusCode := code\<rparr>)
        in Some (addResult result' results))"

definition addItemToCart :: "http_call \<Rightarrow> int \<Rightarrow> TestResult list \<Rightarrow> TestResult list option" where
  "addItemToCart c customerID results =
     (if err c = None \<and> resp c = None then None
      else
        let duration = elapsed c * 1000;
            result = \<lparr>Operation = ''add_items'', ResponseTime = duration,
                      Success = (err c = None \<and> (resp c = Some 200 \<or> resp c = Some 201)),
                      StatusCode = 0, Timestamp = now c, CustomerID = customerID\<rparr>;
            result' = (case resp c of None \<Rightarrow> result
                       | Some code \<Rightarrow> result\<lparr>StatusCode := code\<rparr>)
        in Some (addResult result' results))"

definition getCart :: "http_call \<Rightarrow> int \<Rightarrow> TestResult list \<Rightarrow> TestResult list option" where
  "getCart c customerID results =
     (if err c = None \<and> resp c = None then None
      else
        let duration = elapsed c * 1000;
            result = \<lparr>Operation = ''get_cart'', ResponseTime = duration,
                      Success = (err c = None \<and> resp c = Some 200),
                      StatusCode = 0, Timestamp = now c, CustomerID = customerID\<rparr>;
            result' = (case resp c of None \<Rightarrow> result
                       | Some code \<Rightarrow> result\<lparr>StatusCode := code\<rparr>)
        in Some (addResult result' results))"

text \<open>
  The record a task appends, as a function of the call it made: \<open>writes\<close> tells the
  two POST call sites (200 or 201 accepted) from the GET call site (200 only).
\<close>

definition outcome :: "string \<Rightarrow> bool \<Rightarrow> http_call \<Rightarrow> int \<Rightarrow> TestResult" where
  "outcome kind writes c customerID =
     \<lparr>Operation = kind, ResponseTime = elapsed c * 1000,
      Success = (err c = None \<and> (resp c = Some 200 \<or> (writes \<and> resp c = Some 201))),
      StatusCode = (case resp c of None \<Rightarrow> 0 | Some code \<Rightarrow> code),
      Timestamp = now c, CustomerID = customerID\<rparr>"

section \<open>runConcurrent: the phase runner\<close>

text \<open>
  \<open>runConcurrent\<close> starts one goroutine per index and waits for all of them; a buffered
  channel of capacity \<open>NumWorkers\<close> serves as a counting semaphore. The model is an
  interleaving semantics. Each goroutine has a program counter:
  \<^item> \<open>AtAcquire\<close>: started, before \<open>semaphore <- struct{}{}\<close>;
  \<^item> \<open>InTask\<close>: slot acquired, inside \<open>taskFunc(index)\<close>;
  \<^item> \<open>AtRelease\<close>: \<open>taskFunc\<close> has returned, before \<open><-semaphore\<close>;
  \<^item> \<open>AtDone\<close>: slot released, before the deferred \<open>wg.Done()\<close>;
  \<^item> \<open>Unwinding\<close>: \<open>taskFunc\<close> has panicked and the panic unwinds the goroutine,
    before the deferred \<open>wg.Done()\<close>; the release is not deferred, so the slot is
    never given back;
  \<^item> \<open>Exited\<close>: the closure is done, its \<open>wg.Done()\<close> has run.
  The state holds the loop variable of the spawning loop, the WaitGroup counter, the
  number of tokens in the channel, the program counters, the global \<open>results\<close>, the
  goroutines whose panic has finished unwinding (\<open>fatal\<close>: the runtime is about to
  exit the process with status 2 on their behalf), whether the process has exited that
  way (\<open>panicked\<close>) and whether the call has returned.
\<close>

datatype pc = Unspawned | AtAcquire | InTask | AtRelease | AtDone | Unwinding | Exited

record runner =
  loop_i :: nat
  wg :: nat
  semaphore :: nat
  pcs :: "nat \<Rightarrow> pc"
  shared :: "TestResult list"
  fatal :: "nat set"
  panicked :: bool
  returned :: bool

text \<open>
  A task is a Go \<open>func(int)\<close>: given its index it transforms the shared state, or
  panics (\<open>None\<close>). The tasks of this program touch the shared state once, in
  \<open>addResult\<close> under the mutex, so a task is one atomic event of the interleaving;
  the one fault they can raise, the nil dereference, comes before \<open>addResult\<close>, so a
  task that panics leaves the shared state as it was.
\<close>

type_synonym task = "nat \<Rightarrow> TestResult list \<Rightarrow> TestResult list option"

datatype event = Spawn | Acquire nat | Task nat | Release nat | Done nat | Wait | Die

text \<open>
  One event, \<open>None\<close> when it cannot happen in this state:
  \<^item> \<open>Spawn\<close>: one round of the loop, \<open>wg.Add(1)\<close> and \<open>go func(index)\<close>;
  \<^item> \<open>Acquire i\<close>: the channel send, which blocks while the buffer is full;
  \<^item> \<open>Task i\<close>: \<open>taskFunc(index)\<close>; no \<open>recover\<close> is installed, so a panic of the
    task starts to unwind the goroutine;
  \<^item> \<open>Release i\<close>: the channel receive, which blocks while the buffer is empty;
  \<^item> \<open>Done i\<close>: the deferred \<open>wg.Done()\<close>, at the normal end of the closure or
    while a panic unwinds; it panics itself on a counter that would go negative. A
    goroutine that has run it with a panic in flight is in the runtime's fatal exit;
  \<^item> \<open>Wait\<close>: \<open>wg.Wait()\<close> returns, after the loop, once the counter is zero;
  \<^item> \<open>Die\<close>: the runtime exits the process with status 2 for an unrecovered panic.
  Between the panic of a task and \<open>Die\<close> the other goroutines go on, and \<open>wg.Wait()\<close>
  may return. Nothing happens once the process has exited; after the return of the call
  the only event left to this call is \<open>Die\<close>.
\<close>

definition step :: "nat \<Rightarrow> task \<Rightarrow> event \<Rightarrow> runner \<Rightarrow> runner option" where
  "step count taskFunc ev s =
     (if panicked s then None
      else case ev of
        Spawn \<Rightarrow>
          if \<not> returned s \<and> loop_i s < count
          then Some (s\<lparr>loop_i := loop_i s + 1, wg := wg s + 1,
                       pcs := (pcs s)(loop_i s := AtAcquire)\<rparr>)
          else None
      | Acquire i \<Rightarrow>
          if pcs s i = AtAcquire \<and> semaphore s < NumWorkers
          then Some (s\<lparr>semaphore := semaphore s + 1, pcs := (pcs s)(i := InTask)\<rparr>)
          else None
      | Task i \<Rightarrow>
          if pcs s i = InTask
          then (case taskFunc i (shared s) of
                  None \<Rightarrow> Some (s\<lparr>pcs := (pcs s)(i := Unwinding)\<rparr>)
                | Some rs \<Rightarrow> Some (s\<lparr>shared := rs, pcs := (pcs s)(i := AtRelease)\<rparr>))
          else None
      | Release i \<Rightarrow>
          if pcs s i = AtRelease \<and> 0 < semaphore s
          then Some (s\<lparr>semaphore := semaphore s - 1, pcs := (pcs s)(i := AtDone)\<rparr>)
          else None
      | Done i \<Rightarrow>
          if pcs s i = AtDone
          then (if wg s = 0
                then Some (s\<lparr>fatal := insert i (fatal s), pcs := (pcs s)(i := Exited)\<rparr>)
                else Some (s\<lparr>wg := wg s - 1, pcs := (pcs s)(i := Exited)\<rparr>))
          else if pcs s i = Unwinding
          then Some (s\<lparr>wg := wg s - 1, fatal := insert i (fatal s),
                       pcs := (pcs s)(i := Exited)\<rparr>)
          else None
      | Wait \<Rightarrow>
          if \<not> returned s \<and> loop_i s = count \<and> wg s = 0
          then Some (s\<lparr>returned := True\<rparr>)
          else None
      | Die \<Rightarrow>
          if fatal s \<noteq> {} then Some (s\<lparr>panicked := True\<rparr>) else None)"

text \<open>A schedule is the list of events of one execution, in the order they happen.\<close>

fun exec :: "nat \<Rightarrow> task \<Rightarrow> event list \<Rightarrow> runner \<Rightarrow> runner option" where
  "exec count taskFunc [] s = Some s"
| "exec count taskFunc (ev # evs) s =
     (case step count taskFunc ev s of
        None \<Rightarrow> None
      | Some s' \<Rightarrow> exec count taskFunc evs s')"

definition start :: "TestResult list \<Rightarrow> runner" where
  "start results =
     \<lparr>loop_i = 0, wg = 0, semaphore = 0, pcs = (\<lambda>i. Unspawned), shared = results,
      fatal = {}, panicked = False, returned = False\<rparr>"

text \<open>
  How a call of \<open>runConcurrent\<close> ends under a schedule, with \<open>results\<close> as it is
  then: the call returns; or it returns while a panic is taking the process down
  (the exit with status 2 is still to come); or the process exits by a panic before
  the call has returned. \<open>None\<close>: the schedule is not a complete execution (an event
  of it cannot happen, or it stops before the call has ended). The slice the Go
  function returns is all zeros and every caller discards it.
\<close>

datatype phase_end =
  Returns "TestResult list" | ReturnsPanicking "TestResult list" | Panics "TestResult list"

fun results_left :: "phase_end \<Rightarrow> TestResult list" where
  "results_left (Returns rs) = rs"
| "results_left (ReturnsPanicking rs) = rs"
| "results_left (Panics rs) = rs"

definition runConcurrent ::
  "nat \<Rightarrow> task \<Rightarrow> event list \<Rightarrow> TestResult list \<Rightarrow> phase_end option" where
  "runConcurrent count taskFunc sched results =
     (case exec count taskFunc sched (start results) of
        None \<Rightarrow> None
      | Some s \<Rightarrow>
          if panicked s then Some (Panics (shared s))
          else if returned s
          then (if fatal s = {} then Some (Returns (shared s))
                else Some (ReturnsPanicking (shared s)))
          else None)"

text \<open>The schedule that runs the goroutines one after the other.\<close>

definition one_by_one :: "nat \<Rightarrow> event list" where
  "one_by_one count =
     concat (map (\<lambda>i. [Spawn, Acquire i, Task i, Release i, Done i]) [0..<count]) @ [Wait]"

text \<open>
  Goroutines that hold a slot and may give it back, that are counted by the WaitGroup,
  whose task has returned (and that have not panicked afterwards).
\<close>

definition holding :: "runner \<Rightarrow> nat set" where
  "holding s = {i. pcs s i = InTask \<or> pcs s i = AtRelease}"

definition pending :: "runner \<Rightarrow> nat set" where
  "pending s = {i. pcs s i \<noteq> Unspawned \<and> pcs s i \<noteq> Exited}"

definition finished :: "runner \<Rightarrow> nat set" where
  "finished s =
     {i. (pcs s i = AtRelease \<or> pcs s i = AtDone \<or> pcs s i = Exited) \<and> i \<notin> fatal s}"

text \<open>No panic so far.\<close>

definition clean :: "runner \<Rightarrow> bool" where
  "clean s \<longleftrightarrow> fatal s = {} \<and> (\<forall>i. pcs s i \<noteq> Unwinding)"

definition runner_inv :: "nat \<Rightarrow> runner \<Rightarrow> bool" where
  "runner_inv count s \<longleftrightarrow>
     loop_i s \<le> count \<and> (\<forall>i. i < loop_i s \<longleftrightarrow> pcs s i \<noteq> Unspawned)
     \<and> card (holding s) \<le> semaphore s \<and> semaphore s \<le> NumWorkers
     \<and> (clean s \<longrightarrow> semaphore s = card (holding s))
     \<and> wg s = card (pending s)
     \<and> (\<forall>i \<in> fatal s. pcs s i = Exited)
     \<and> (returned s \<longrightarrow> loop_i s = count \<and> wg s = 0)
     \<and> (panicked s \<longrightarrow> fatal s \<noteq> {})"

text \<open>The state between two rounds of that schedule: \<open>k\<close> goroutines have come and gone.\<close>

definition between :: "nat \<Rightarrow> TestResult list \<Rightarrow> runner" where
  "between k rs =
     \<lparr>loop_i = k, wg = 0, semaphore = 0, pcs = (\<lambda>i. if i < k then Exited else Unspawned),
      shared = rs, fatal = {}, panicked = False, returned = False\<rparr>"

text \<open>
  A measure of how far an execution has come: every event adds at least one to it
  (the number of statements a goroutine has behind it is its \<open>rank\<close>).
\<close>

fun rank :: "pc \<Rightarrow> nat" where
  "rank Unspawned = 0"
| "rank AtAcquire = 0"
| "rank InTask = 1"
| "rank AtRelease = 2"
| "rank AtDone = 3"
| "rank Unwinding = 3"
| "rank Exited = 4"

definition progress :: "nat \<Rightarrow> runner \<Rightarrow> nat" where
  "progress count s =
     loop_i s + (\<Sum>i<count. rank (pcs s i)) + (if panicked s then 1 else 0)
       + (if returned s then 1 else 0)"

section \<open>main: the three phases\<close>

text \<open>
  The closures \<open>main\<close> hands to \<open>runConcurrent\<close>. \<open>calls i\<close> is what the HTTP call of
  task \<open>i\<close> returns. An index out of range and a remainder by zero panic in Go.
\<close>

definition phase1 :: "(nat \<Rightarrow> http_call) \<Rightarrow> int list \<Rightarrow> task" where
  "phase1 calls customerIDs i results =
     (if i < length customerIDs then createCart (calls i) (customerIDs ! i) results else None)"

definition phase2 :: "(nat \<Rightarrow> http_call) \<Rightarrow> int list \<Rightarrow> task" where
  "phase2 calls customerIDs i results =
     (if length customerIDs = 0 then None
      else addItemToCart (calls i) (customerIDs ! (i mod length customerIDs)) results)"

definition phase3 :: "(nat \<Rightarrow> http_call) \<Rightarrow> int list \<Rightarrow> task" where
  "phase3 calls customerIDs i results =
     (if length customerIDs = 0 then None
      else getCart (calls i) (customerIDs ! (i mod length customerIDs)) results)"

text \<open>
  Everything \<open>main\<close> takes from outside: the command line, the answer to the health
  check, the value of \<open>rand.Intn(100000)\<close>, the answers to the calls of each phase, the
  schedule of each phase, and whether the output file can be written.
\<close>

record run_env =
  args :: "string list"
  health :: http_call
  rand_base :: int
  create_calls :: "nat \<Rightarrow> http_call"
  add_calls :: "nat \<Rightarrow> http_call"
  get_calls :: "nat \<Rightarrow> http_call"
  sched1 :: "event list"
  sched2 :: "event list"
  sched3 :: "event list"
  file_ok :: bool

text \<open>
  How the process ends: with an exit code, the final value of \<open>results\<close> and the
  report saved to the output file if any, or by a panic. Printing is not modelled. A
  call of \<open>runConcurrent\<close> that returns while a panic is taking the process down lets
  \<open>main\<close> go on for a while, but the process ends by the panic: the runtime exits
  with status 2, and a \<open>main\<close> that returns first waits for that exit.
\<close>

datatype process_end = Exit int "TestResult list" "TestOutput option" | Crash

definition main :: "run_env \<Rightarrow> process_end option" where
  "main e =
     (if length (args e) < 2 then Some (Exit 1 [] None)
      else case testConnectivity (health e) of
        None \<Rightarrow> Some Crash
      | Some healthy \<Rightarrow>
          if \<not> healthy then Some (Exit 1 [] None)
          else
            let baseCustomerID = rand_base e + 10000;
                customerIDs = map (\<lambda>i. baseCustomerID + int i) [0..<NumCreateCart]
            in
              case runConcurrent NumCreateCart (phase1 (create_calls e) customerIDs)
                     (sched1 e) [] of
                None \<Rightarrow> None
              | Some (Panics dead) \<Rightarrow> Some Crash
              | Some (ReturnsPanicking dying) \<Rightarrow> Some Crash
              | Some (Returns results1) \<Rightarrow>
              (case runConcurrent NumAddItems (phase2 (add_calls e) customerIDs)
                     (sched2 e) results1 of
                None \<Rightarrow> None
              | Some (Panics dead) \<Rightarrow> Some Crash
              | Some (ReturnsPanicking dying) \<Rightarrow> Some Crash
              | Some (Returns results2) \<Rightarrow>
              (case runConcurrent NumGetCart (phase3 (get_calls e) customerIDs)
                     (sched3 e) results2 of
                None \<Rightarrow> None
              | Some (Panics dead) \<Rightarrow> Some Crash
              | Some (ReturnsPanicking dying) \<Rightarrow> Some Crash
              | Some (Returns results3) \<Rightarrow>
                  let (stats, results4) = calculateStatistics results3;
                      output = \<lparr>Results = results4, Statistics = stats\<rparr>
                  in Some (Exit 0 results4 (if file_ok e then Some output else None)))))"

text \<open>
  The customer ids \<open>main\<close> builds, and the record each task of a run appends when its
  body returns: task \<open>i\<close> of phase 1 creates the cart of customer \<open>i\<close>, task \<open>i\<close> of
  phases 2 and 3 works on the cart of customer \<open>i mod 50\<close>.
\<close>

definition ids_of :: "run_env \<Rightarrow> int list" where
  "ids_of e = map (\<lambda>i. rand_base e + 10000 + int i) [0..<NumCreateCart]"

definition created :: "run_env \<Rightarrow> nat \<Rightarrow> TestResult" where
  "created e i = outcome ''create_cart'' True (create_calls e i) (ids_of e ! i)"

definition added :: "run_env \<Rightarrow> nat \<Rightarrow> TestResult" where
  "added e i = outcome ''add_items'' True (add_calls e i) (ids_of e ! (i mod NumCreateCart))"

definition fetched :: "run_env \<Rightarrow> nat \<Rightarrow> TestResult" where
  "fetched e i = outcome ''get_cart'' False (get_calls e i) (ids_of e ! (i mod NumCreateCart))"

text \<open>Sample answers for the examples below: the call of task 0 is refused, the others succeed.\<close>

definition sample_calls :: "nat \<Rightarrow> http_call" where
  "sample_calls i =
     (if i = 0 then \<lparr>resp = None, err = Some ''connection refused'', elapsed = 2, now = ''t0''\<rparr>
      else \<lparr>resp = Some 200, err = None, elapsed = 1/4, now = ''t1''\<rparr>)"

text \<open>
  A sample run for the examples below: the health check and every call answered with
  success, the goroutines of each phase run one by one, the output file writable.
\<close>

definition sample_run :: run_env where
  "sample_run =
     \<lparr>args = [''test'', ''http://alb.example''],
      health = \<lparr>resp = Some 200, err = None, elapsed = 1/100, now = ''t''\<rparr>,
      rand_base = 4242,
      create_calls = (\<lambda>i. \<lparr>resp = Some 201, err = None, elapsed = 1/50, now = ''t''\<rparr>),
      add_calls = (\<lambda>i. \<lparr>resp = Some 200, err = None, elapsed = 1/50, now = ''t''\<rparr>),
      get_calls = (\<lambda>i. \<lparr>resp = Some 200, err = None, elapsed = 1/50, now = ''t''\<rparr>),
      sched1 = one_by_one NumCreateCart,
      sched2 = one_by_one NumAddItems,
      sched3 = one_by_one NumGetCart,
      file_ok = True\<rparr>"

section \<open>The service: createShoppingCart\<close>

text \<open>
  The handler of POST /shopping-carts. The carts table of DynamoDB is a map from
  customer_id to the stored cart (marshalling to attribute values is one-to-one and is
  left out of the stored value); \<open>put_log\<close> lists the PutItem requests issued. What
  the handler takes from outside is in \<open>request\<close>: the customer_id bound by
  \<open>ShouldBindJSON\<close> (\<open>None\<close> when binding fails), whether GetItem, MarshalMap and
  PutItem return an error, and the two readings of the clock. A PutItem that returns
  an error leaves the table as it was.
\<close>

record CartProduct =
  ID :: int
  Manufacturer :: string
  Category :: string
  Quantity :: int

record CartItem =
  CustomerID' :: int
  Items :: "CartProduct list"
  CreatedAt :: string
  UpdatedAt :: string

record dynamo =
  carts :: "int \<rightharpoonup> CartItem"
  put_log :: "CartItem list"

record request =
  bound :: "int option"
  get_err :: bool
  marshal_err :: bool
  put_err :: bool
  clock1 :: string
  clock2 :: string

datatype json = JInt int | JStr string

text \<open>The decimal rendering of \<open>%d\<close>.\<close>

fun digits :: "nat \<Rightarrow> string" where
  "digits n =
     (if n < 10 then [''0123456789'' ! n]
      else digits (n div 10) @ [''0123456789'' ! (n mod 10)])"

declare digits.simps [simp del]

definition Itoa :: "int \<Rightarrow> string" where
  "Itoa i = (if i < 0 then CHR ''-'' # digits (nat (- i)) else digits (nat i))"

text \<open>The result is the status and the JSON object of the response, and the table afterwards.\<close>

definition createShoppingCart ::
  "request \<Rightarrow> dynamo \<Rightarrow> (int \<times> (string \<rightharpoonup> json)) \<times> dynamo" where
  "createShoppingCart q db =
     (case bound q of
        None \<Rightarrow> ((400, [''error'' \<mapsto> JStr ''customer_id is required'']), db)
      | Some customerID \<Rightarrow>
          if \<not> get_err q \<and> carts db customerID \<noteq> None
          then ((200, [''message'' \<mapsto> JStr ''Shopping cart already exists for this customer'',
                       ''id'' \<mapsto> JInt customerID,
                       ''customer_id'' \<mapsto> JInt customerID]), db)
          else
            let newCart = \<lparr>CustomerID' = customerID, Items = [],
                           CreatedAt = clock1 q, UpdatedAt = clock2 q\<rparr>
            in if marshal_err q
               then ((500, [''error'' \<mapsto> JStr ''Failed to create cart'']), db)
               else
                 let db1 = db\<lparr>put_log := put_log db @ [newCart]\<rparr>
                 in if put_err q
                    then ((500, [''error'' \<mapsto> JStr ''Failed to create cart'']), db1)
                    else ((201, [''id'' \<mapsto> JInt customerID,
                                 ''customer_id'' \<mapsto> JInt customerID,
                                 ''message'' \<mapsto> JStr (''shopping cart created for customer ''
                                                       @ Itoa customerID),
                                 ''created_at'' \<mapsto> JStr (CreatedAt newCart)]),
                          db1\<lparr>carts := (carts db)(customerID \<mapsto> newCart)\<rparr>))"

section \<open>Properties of the statistics\<close>

lemma stats_lookup:
  "fst (calculateStatistics rs) k = (if k \<in> set opTypes then Some (stat_for k rs) else None)"
  by (simp add: calculateStatistics_def opTypes_def)

lemma tally_split: "Count (tally r s) - (Successful (tally r s) + Failed (tally r s))
    = Count s - (Successful s + Failed s)"
  by (simp add: tally_def Let_def)

lemma scan_split:
  "Count (scan_results k rs s) - (Successful (scan_results k rs s) + Failed (scan_results k rs s))
    = Count s - (Successful s + Failed s)"
proof (induction rs arbitrary: s)
  case Nil
  show ?case by simp
next
  case (Cons r rs)
  show ?case
    by (simp only: scan_results.simps Cons.IH tally_split split: if_split) simp
qed

lemma stat_for_split: "Count (stat_for k rs) = Successful (stat_for k rs) + Failed (stat_for k rs)"
  using scan_split [of k rs new_stat]
  by (simp add: stat_for_def Let_def new_stat_def)

text \<open>
  C7: every entry of the computed statistics mapping satisfies
  count = successful + failed.
\<close>

theorem count_is_successful_plus_failed:
  "fst (calculateStatistics rs) k = Some st \<Longrightarrow> Count st = Successful st + Failed st"
  by (auto simp: stats_lookup stat_for_split split: if_splits)

theorem count_is_successful_plus_failed_witness:
  "fst (calculateStatistics
      [\<lparr>Operation = ''get_cart'', ResponseTime = 12, Success = True, StatusCode = 200,
        Timestamp = ''t0'', CustomerID = 7\<rparr>,
       \<lparr>Operation = ''get_cart'', ResponseTime = 30, Success = False, StatusCode = 500,
        Timestamp = ''t1'', CustomerID = 8\<rparr>]) ''get_cart''
     = Some \<lparr>Count = 2, Successful = 1, Failed = 1, AvgResponseTime = 21,
             MinResponseTime = 12, MaxResponseTime = 30, TotalResponseTime = 42\<rparr>
   \<and> (2::int) = 1 + 1"
proof -
  have e: "fst (calculateStatistics
      [\<lparr>Operation = ''get_cart'', ResponseTime = 12, Success = True, StatusCode = 200,
        Timestamp = ''t0'', CustomerID = 7\<rparr>,
       \<lparr>Operation = ''get_cart'', ResponseTime = 30, Success = False, StatusCode = 500,
        Timestamp = ''t1'', CustomerID = 8\<rparr>]) ''get_cart''
     = Some \<lparr>Count = 2, Successful = 1, Failed = 1, AvgResponseTime = 21,
             MinResponseTime = 12, MaxResponseTime = 30, TotalResponseTime = 42\<rparr>"
    by (simp add: calculateStatistics_def opTypes_def stat_for_def tally_def new_stat_def Let_def)
  from count_is_successful_plus_failed [OF e] e show ?thesis by simp
qed

subsection \<open>The task bodies\<close>

lemma createCart_outcome:
  "createCart c cid rs =
     (if client_contract c then Some (rs @ [outcome ''create_cart'' True c cid]) else None)"
  by (cases "resp c")
     (auto simp: createCart_def client_contract_def outcome_def addResult_def Let_def)

lemma addItemToCart_outcome:
  "addItemToCart c cid rs =
     (if client_contract c then Some (rs @ [outcome ''add_items'' True c cid]) else None)"
  by (cases "resp c")
     (auto simp: addItemToCart_def client_contract_def outcome_def addResult_def Let_def)

lemma getCart_outcome:
  "getCart c cid rs =
     (if client_contract c then Some (rs @ [outcome ''get_cart'' False c cid]) else None)"
  by (cases "resp c")
     (auto simp: getCart_def client_contract_def outcome_def addResult_def Let_def)

text \<open>
  C6: on a received response the success flag follows the per-call-site table: the
  create-cart and add-item POSTs succeed exactly on status 200 or 201, the get-cart GET
  exactly on status 200. A response can come with an error only when a redirect policy
  fails, and is then the 3xx redirect response.
\<close>

theorem success_per_call_site:
  assumes "resp c = Some code" and "err c \<noteq> None \<longrightarrow> 300 \<le> code \<and> code < 400"
  shows "(\<exists>r. createCart c cid rs = Some (rs @ [r]) \<and> StatusCode r = code
             \<and> (Success r \<longleftrightarrow> code = 200 \<or> code = 201))
       \<and> (\<exists>r. addItemToCart c cid rs = Some (rs @ [r]) \<and> StatusCode r = code
             \<and> (Success r \<longleftrightarrow> code = 200 \<or> code = 201))
       \<and> (\<exists>r. getCart c cid rs = Some (rs @ [r]) \<and> StatusCode r = code
             \<and> (Success r \<longleftrightarrow> code = 200))"
proof -
  have k: "client_contract c"
    using assms(1) by (simp add: client_contract_def)
  have w: "Success (outcome kind True c cid) \<longleftrightarrow> code = 200 \<or> code = 201" for kind
    using assms by (auto simp: outcome_def)
  have g: "Success (outcome kind False c cid) \<longleftrightarrow> code = 200" for kind
    using assms by (auto simp: outcome_def)
  have t: "StatusCode (outcome kind b c cid) = code" for kind b
    using assms(1) by (simp add: outcome_def)
  show ?thesis
    by (simp add: createCart_outcome addItemToCart_outcome getCart_outcome k w g t)
qed

theorem success_per_call_site_witness:
  "createCart \<lparr>resp = Some 201, err = None, elapsed = 1/4, now = ''t''\<rparr> 7 []
     = Some [\<lparr>Operation = ''create_cart'', ResponseTime = 250, Success = True,
              StatusCode = 201, Timestamp = ''t'', CustomerID = 7\<rparr>]
   \<and> addItemToCart \<lparr>resp = Some 201, err = None, elapsed = 1/4, now = ''t''\<rparr> 7 []
     = Some [\<lparr>Operation = ''add_items'', ResponseTime = 250, Success = True,
              StatusCode = 201, Timestamp = ''t'', CustomerID = 7\<rparr>]
   \<and> getCart \<lparr>resp = Some 201, err = None, elapsed = 1/4, now = ''t''\<rparr> 7 []
     = Some [\<lparr>Operation = ''get_cart'', ResponseTime = 250, Success = False,
              StatusCode = 201, Timestamp = ''t'', CustomerID = 7\<rparr>]"
proof -
  let ?c = "\<lparr>resp = Some 201, err = None, elapsed = 1/4, now = ''t''\<rparr>"
  have h: "resp ?c = Some 201" "err ?c \<noteq> None \<longrightarrow> 300 \<le> (201::int) \<and> (201::int) < 400"
    by simp_all
  from success_per_call_site [OF h, of 7 "[]"] show ?thesis
    by (simp add: createCart_def addItemToCart_def getCart_def addResult_def Let_def)
qed

text \<open>
  C2 as stated fails: on an input with no record at all, the mapping still holds an
  entry for every operation kind of \<open>opTypes\<close>, here the one for get_cart.
\<close>

theorem absent_kind_has_entry:
  "fst (calculateStatistics []) ''get_cart''
     = Some \<lparr>Count = 0, Successful = 0, Failed = 0, AvgResponseTime = 0,
             MinResponseTime = 999999, MaxResponseTime = 0, TotalResponseTime = 0\<rparr>"
  by (simp add: calculateStatistics_def opTypes_def stat_for_def new_stat_def)

lemma scan_no_match:
  "\<forall>r \<in> set rs. Operation r \<noteq> k \<Longrightarrow> scan_results k rs s = s"
  by (induction rs arbitrary: s) auto

text \<open>
  C2 amended: for every input the mapping has exactly the three entries create_cart,
  add_items and get_cart; one of these kinds with no record in the input gets the
  entry with count, successful, failed, sum, average and maximum 0 and minimum 999999;
  any other kind gets no entry.
\<close>

theorem entries_are_the_three_kinds:
  "dom (fst (calculateStatistics rs)) = {''create_cart'', ''add_items'', ''get_cart''}
   \<and> (k \<in> {''create_cart'', ''add_items'', ''get_cart''} \<longrightarrow>
        (\<forall>r \<in> set rs. Operation r \<noteq> k) \<longrightarrow>
        fst (calculateStatistics rs) k
          = Some \<lparr>Count = 0, Successful = 0, Failed = 0, AvgResponseTime = 0,
                  MinResponseTime = 999999, MaxResponseTime = 0, TotalResponseTime = 0\<rparr>)"
proof -
  have d: "dom (fst (calculateStatistics rs)) = {''create_cart'', ''add_items'', ''get_cart''}"
    by (auto simp: stats_lookup opTypes_def dom_def split: if_splits)
  have z: "stat_for k rs = new_stat" if "\<forall>r \<in> set rs. Operation r \<noteq> k"
    using scan_no_match [OF that, of new_stat] by (simp add: stat_for_def new_stat_def)
  show ?thesis
    using d z by (auto simp: stats_lookup opTypes_def new_stat_def)
qed

theorem entries_are_the_three_kinds_witness:
  "dom (fst (calculateStatistics
      [\<lparr>Operation = ''create_cart'', ResponseTime = 5, Success = True, StatusCode = 201,
        Timestamp = ''t0'', CustomerID = 1\<rparr>]))
     = {''create_cart'', ''add_items'', ''get_cart''}
   \<and> fst (calculateStatistics
      [\<lparr>Operation = ''create_cart'', ResponseTime = 5, Success = True, StatusCode = 201,
        Timestamp = ''t0'', CustomerID = 1\<rparr>]) ''add_items''
     = Some \<lparr>Count = 0, Successful = 0, Failed = 0, AvgResponseTime = 0,
             MinResponseTime = 999999, MaxResponseTime = 0, TotalResponseTime = 0\<rparr>"
  using entries_are_the_three_kinds
    [of "[\<lparr>Operation = ''create_cart'', ResponseTime = 5, Success = True, StatusCode = 201,
           Timestamp = ''t0'', CustomerID = 1\<rparr>]" "''add_items''"]
  by simp

section \<open>Properties of the phase runner\<close>

lemma inv_le: "runner_inv count s \<Longrightarrow> loop_i s \<le> count"
  by (simp add: runner_inv_def)

lemma inv_hold_le: "runner_inv count s \<Longrightarrow> card (holding s) \<le> semaphore s"
  by (simp add: runner_inv_def)

lemma inv_sem_le: "runner_inv count s \<Longrightarrow> semaphore s \<le> NumWorkers"
  by (simp add: runner_inv_def)

lemma inv_sem: "runner_inv count s \<Longrightarrow> clean s \<Longrightarrow> semaphore s = card (holding s)"
  by (simp add: runner_inv_def)

lemma inv_wg: "runner_inv count s \<Longrightarrow> wg s = card (pending s)"
  by (simp add: runner_inv_def)

lemma inv_fatal: "runner_inv count s \<Longrightarrow> i \<in> fatal s \<Longrightarrow> pcs s i = Exited"
  by (simp add: runner_inv_def)

lemma inv_returned: "runner_inv count s \<Longrightarrow> returned s \<Longrightarrow> loop_i s = count \<and> wg s = 0"
  by (simp add: runner_inv_def)

lemma inv_panicked: "runner_inv count s \<Longrightarrow> panicked s \<Longrightarrow> fatal s \<noteq> {}"
  by (simp add: runner_inv_def)

lemma inv_iff:
  assumes "runner_inv count s"
  shows "(j < loop_i s) = (pcs s j \<noteq> Unspawned)"
proof -
  from assms have "\<forall>i. (i < loop_i s) = (pcs s i \<noteq> Unspawned)"
    by (simp add: runner_inv_def)
  then show ?thesis
    by (rule spec)
qed

lemma inv_spawned:
  assumes "runner_inv count s" and "pcs s i \<noteq> Unspawned"
  shows "i < count"
proof -
  from inv_iff [OF assms(1), of i] assms(2) have "i < loop_i s"
    by simp
  with inv_le [OF assms(1)] show ?thesis
    by simp
qed

lemma inv_unspawned:
  assumes "runner_inv count s"
  shows "pcs s (loop_i s) = Unspawned"
  using inv_iff [OF assms, of "loop_i s"] by simp

lemma runner_invI:
  assumes "loop_i s \<le> count" and "\<And>i. (i < loop_i s) = (pcs s i \<noteq> Unspawned)"
    and "card (holding s) \<le> semaphore s" and "semaphore s \<le> NumWorkers"
    and "clean s \<Longrightarrow> semaphore s = card (holding s)"
    and "wg s = card (pending s)"
    and "\<And>i. i \<in> fatal s \<Longrightarrow> pcs s i = Exited"
    and "returned s \<Longrightarrow> loop_i s = count \<and> wg s = 0"
    and "panicked s \<Longrightarrow> fatal s \<noteq> {}"
  shows "runner_inv count s"
  unfolding runner_inv_def using assms by blast

lemma finite_spawned: "runner_inv count s \<Longrightarrow> finite {i. pcs s i \<noteq> Unspawned}"
proof -
  assume i: "runner_inv count s"
  have "{i. pcs s i \<noteq> Unspawned} = {..<loop_i s}"
    using inv_iff [OF i] by auto
  then show ?thesis by simp
qed

lemma finite_holding: "runner_inv count s \<Longrightarrow> finite (holding s)"
  by (rule finite_subset [OF _ finite_spawned]) (auto simp: holding_def)

lemma finite_pending: "runner_inv count s \<Longrightarrow> finite (pending s)"
  by (rule finite_subset [OF _ finite_spawned]) (auto simp: pending_def)

lemma start_inv: "runner_inv count (start rs)"
  by (simp add: runner_inv_def start_def holding_def pending_def clean_def)

text \<open>How the sets follow one program counter that moves.\<close>

lemma mem_holding: "(i \<in> holding s) = (pcs s i = InTask \<or> pcs s i = AtRelease)"
  by (simp add: holding_def)

lemma mem_pending: "(i \<in> pending s) = (pcs s i \<noteq> Unspawned \<and> pcs s i \<noteq> Exited)"
  by (simp add: pending_def)

lemma holding_upd:
  assumes "pcs s' = (pcs s)(i := v)"
  shows "holding s' = (if v = InTask \<or> v = AtRelease then insert i (holding s)
                      else holding s - {i})"
  using assms by (auto simp: holding_def)

lemma pending_upd:
  assumes "pcs s' = (pcs s)(i := v)"
  shows "pending s' = (if v \<noteq> Unspawned \<and> v \<noteq> Exited then insert i (pending s)
                      else pending s - {i})"
  using assms by (auto simp: pending_def)

lemma clean_upd:
  assumes "pcs s' = (pcs s)(i := v)" and "fatal s' = fatal s"
    and "pcs s i \<noteq> Unwinding" and "v \<noteq> Unwinding"
  shows "clean s' = clean s"
  using assms by (auto simp: clean_def)

lemma iff_upd:
  assumes "\<And>j. (j < n) = (f j \<noteq> Unspawned)" and "f i \<noteq> Unspawned" and "v \<noteq> Unspawned"
  shows "(j < n) = ((f(i := v)) j \<noteq> Unspawned)"
  using assms by auto

lemma fatal_upd:
  assumes "runner_inv count s" and "pcs s' = (pcs s)(i := v)" and "fatal s' = fatal s"
    and "pcs s i \<noteq> Exited" and "j \<in> fatal s'"
  shows "pcs s' j = Exited"
proof -
  from assms(3,5) have j: "j \<in> fatal s"
    by simp
  with inv_fatal [OF assms(1)] have e: "pcs s j = Exited"
    by simp
  with assms(4) have "j \<noteq> i"
    by auto
  with e assms(2) show ?thesis
    by simp
qed

lemma step_inv:
  assumes inv: "runner_inv count s" and st: "step count taskFunc ev s = Some s'"
  shows "runner_inv count s'"
proof -
  note fh = finite_holding [OF inv] and fp = finite_pending [OF inv]
  from st have np: "\<not> panicked s"
    by (auto simp: step_def split: if_splits)
  show ?thesis
  proof (cases ev)
    case Spawn
    with st np have l: "\<not> returned s" "loop_i s < count"
      and s': "s' = s\<lparr>loop_i := loop_i s + 1, wg := wg s + 1,
                      pcs := (pcs s)(loop_i s := AtAcquire)\<rparr>"
      by (simp_all add: step_def split: if_splits)
    have u: "pcs s (loop_i s) = Unspawned"
      using inv by (rule inv_unspawned)
    have pc': "pcs s' = (pcs s)(loop_i s := AtAcquire)" and f': "fatal s' = fatal s"
      by (simp_all add: s')
    have h: "holding s' = holding s"
      using u by (simp add: holding_upd [OF pc'] mem_holding insert_absorb)
    have p: "pending s' = insert (loop_i s) (pending s)" "loop_i s \<notin> pending s"
      using u by (simp_all add: pending_upd [OF pc'] mem_pending insert_absorb)
    have c: "clean s' = clean s"
      using u by (simp add: clean_upd [OF pc' f'])
    show ?thesis
    proof (rule runner_invI)
      show "loop_i s' \<le> count"
        using l by (simp add: s')
      show "(j < loop_i s') = (pcs s' j \<noteq> Unspawned)" for j
        using inv_iff [OF inv, of j] by (auto simp: s' less_Suc_eq)
      show "card (holding s') \<le> semaphore s'"
        using inv_hold_le [OF inv] by (simp add: h) (simp add: s')
      show "semaphore s' \<le> NumWorkers"
        using inv_sem_le [OF inv] by (simp add: s')
      show "semaphore s' = card (holding s')" if "clean s'"
        using inv_sem [OF inv] that by (simp add: h c) (simp add: s')
      show "wg s' = card (pending s')"
        using inv_wg [OF inv] fp p(2) by (simp add: p(1)) (simp add: s')
      show "pcs s' j = Exited" if "j \<in> fatal s'" for j
        using fatal_upd [OF inv pc' f' _ that] u by simp
      show "loop_i s' = count \<and> wg s' = 0" if "returned s'"
        using that l by (simp add: s')
      show "fatal s' \<noteq> {}" if "panicked s'"
        using that np by (simp add: s')
    qed
  next
    case (Acquire i)
    with st np have a: "pcs s i = AtAcquire" "semaphore s < NumWorkers"
      and s': "s' = s\<lparr>semaphore := semaphore s + 1, pcs := (pcs s)(i := InTask)\<rparr>"
      by (simp_all add: step_def split: if_splits)
    have pc': "pcs s' = (pcs s)(i := InTask)" and f': "fatal s' = fatal s"
      by (simp_all add: s')
    have h: "holding s' = insert i (holding s)" "i \<notin> holding s"
      using a by (simp_all add: holding_upd [OF pc'] mem_holding insert_absorb)
    have p: "pending s' = pending s"
      using a by (simp add: pending_upd [OF pc'] mem_pending insert_absorb)
    have c: "clean s' = clean s"
      using a by (simp add: clean_upd [OF pc' f'])
    show ?thesis
    proof (rule runner_invI)
      show "loop_i s' \<le> count"
        using inv_le [OF inv] by (simp add: s')
      show "(j < loop_i s') = (pcs s' j \<noteq> Unspawned)" for j
        using iff_upd [OF inv_iff [OF inv], of i InTask j] a by (simp add: s')
      show "card (holding s') \<le> semaphore s'"
        using inv_hold_le [OF inv] fh h(2) by (simp add: h(1)) (simp add: s')
      show "semaphore s' \<le> NumWorkers"
        using a by (simp add: s')
      show "semaphore s' = card (holding s')" if "clean s'"
        using inv_sem [OF inv] that fh h(2) by (simp add: h(1) c) (simp add: s')
      show "wg s' = card (pending s')"
        using inv_wg [OF inv] by (simp add: p) (simp add: s')
      show "pcs s' j = Exited" if "j \<in> fatal s'" for j
        using fatal_upd [OF inv pc' f' _ that] a by simp
      show "loop_i s' = count \<and> wg s' = 0" if "returned s'"
        using that inv_returned [OF inv] by (simp add: s')
      show "fatal s' \<noteq> {}" if "panicked s'"
        using that np by (simp add: s')
    qed
  next
    case (Task i)
    with st np have a: "pcs s i = InTask"
      by (simp add: step_def split: if_splits)
    show ?thesis
    proof (cases "taskFunc i (shared s)")
      case None
      with st Task a np have s': "s' = s\<lparr>pcs := (pcs s)(i := Unwinding)\<rparr>"
        by (simp add: step_def)
      have pc': "pcs s' = (pcs s)(i := Unwinding)" and f': "fatal s' = fatal s"
        by (simp_all add: s')
      have h: "holding s' = holding s - {i}"
        by (simp add: holding_upd [OF pc'])
      have p: "pending s' = pending s"
        using a by (simp add: pending_upd [OF pc'] mem_pending insert_absorb)
      have c: "\<not> clean s'"
        by (auto simp: clean_def s')
      show ?thesis
      proof (rule runner_invI)
        show "loop_i s' \<le> count"
          using inv_le [OF inv] by (simp add: s')
        show "(j < loop_i s') = (pcs s' j \<noteq> Unspawned)" for j
          using iff_upd [OF inv_iff [OF inv], of i Unwinding j] a by (simp add: s')
        have "card (holding s - {i}) \<le> card (holding s)"
          using fh by (simp add: card_Diff1_le)
        then show "card (holding s') \<le> semaphore s'"
          using inv_hold_le [OF inv] by (simp add: h) (simp add: s')
        show "semaphore s' \<le> NumWorkers"
          using inv_sem_le [OF inv] by (simp add: s')
        show "semaphore s' = card (holding s')" if "clean s'"
          using that c by simp
        show "wg s' = card (pending s')"
          using inv_wg [OF inv] by (simp add: p) (simp add: s')
        show "pcs s' j = Exited" if "j \<in> fatal s'" for j
          using fatal_upd [OF inv pc' f' _ that] a by simp
        show "loop_i s' = count \<and> wg s' = 0" if "returned s'"
          using that inv_returned [OF inv] by (simp add: s')
        show "fatal s' \<noteq> {}" if "panicked s'"
          using that np by (simp add: s')
      qed
    next
      case (Some rs)
      with st Task a np have s': "s' = s\<lparr>shared := rs, pcs := (pcs s)(i := AtRelease)\<rparr>"
        by (simp add: step_def)
      have pc': "pcs s' = (pcs s)(i := AtRelease)" and f': "fatal s' = fatal s"
        by (simp_all add: s')
      have h: "holding s' = holding s"
        using a by (simp add: holding_upd [OF pc'] mem_holding insert_absorb)
      have p: "pending s' = pending s"
        using a by (simp add: pending_upd [OF pc'] mem_pending insert_absorb)
      have c: "clean s' = clean s"
        using a by (simp add: clean_upd [OF pc' f'])
      show ?thesis
      proof (rule runner_invI)
        show "loop_i s' \<le> count"
          using inv_le [OF inv] by (simp add: s')
        show "(j < loop_i s') = (pcs s' j \<noteq> Unspawned)" for j
          using iff_upd [OF inv_iff [OF inv], of i AtRelease j] a by (simp add: s')
        show "card (holding s') \<le> semaphore s'"
          using inv_hold_le [OF inv] by (simp add: h) (simp add: s')
        show "semaphore s' \<le> NumWorkers"
          using inv_sem_le [OF inv] by (simp add: s')
        show "semaphore s' = card (holding s')" if "clean s'"
          using inv_sem [OF inv] that by (simp add: h c) (simp add: s')
        show "wg s' = card (pending s')"
          using inv_wg [OF inv] by (simp add: p) (simp add: s')
        show "pcs s' j = Exited" if "j \<in> fatal s'" for j
          using fatal_upd [OF inv pc' f' _ that] a by simp
        show "loop_i s' = count \<and> wg s' = 0" if "returned s'"
          using that inv_returned [OF inv] by (simp add: s')
        show "fatal s' \<noteq> {}" if "panicked s'"
          using that np by (simp add: s')
      qed
    qed
  next
    case (Release i)
    with st np have a: "pcs s i = AtRelease" "0 < semaphore s"
      and s': "s' = s\<lparr>semaphore := semaphore s - 1, pcs := (pcs s)(i := AtDone)\<rparr>"
      by (simp_all add: step_def split: if_splits)
    have pc': "pcs s' = (pcs s)(i := AtDone)" and f': "fatal s' = fatal s"
      by (simp_all add: s')
    have h: "holding s' = holding s - {i}" "i \<in> holding s"
      using a by (simp_all add: holding_upd [OF pc'] mem_holding insert_absorb)
    have p: "pending s' = pending s"
      using a by (simp add: pending_upd [OF pc'] mem_pending insert_absorb)
    have c: "clean s' = clean s"
      using a by (simp add: clean_upd [OF pc' f'])
    have k: "card (holding s - {i}) = card (holding s) - 1"
      using fh h(2) by simp
    show ?thesis
    proof (rule runner_invI)
      show "loop_i s' \<le> count"
        using inv_le [OF inv] by (simp add: s')
      show "(j < loop_i s') = (pcs s' j \<noteq> Unspawned)" for j
        using iff_upd [OF inv_iff [OF inv], of i AtDone j] a by (simp add: s')
      show "card (holding s') \<le> semaphore s'"
        using inv_hold_le [OF inv] by (simp add: h(1) k) (simp add: s')
      show "semaphore s' \<le> NumWorkers"
        using inv_sem_le [OF inv] by (simp add: s')
      show "semaphore s' = card (holding s')" if "clean s'"
        using inv_sem [OF inv] that by (simp add: h(1) k c) (simp add: s')
      show "wg s' = card (pending s')"
        using inv_wg [OF inv] by (simp add: p) (simp add: s')
      show "pcs s' j = Exited" if "j \<in> fatal s'" for j
        using fatal_upd [OF inv pc' f' _ that] a by simp
      show "loop_i s' = count \<and> wg s' = 0" if "returned s'"
        using that inv_returned [OF inv] by (simp add: s')
      show "fatal s' \<noteq> {}" if "panicked s'"
        using that np by (simp add: s')
    qed
  next
    case (Done i)
    with st np have a: "pcs s i = AtDone \<or> pcs s i = Unwinding"
      by (simp add: step_def split: if_splits)
    then have m: "i \<in> pending s"
      by (auto simp: pending_def)
    then have "card (pending s) \<noteq> 0"
      using fp by auto
    then have w: "wg s \<noteq> 0"
      using inv_wg [OF inv] by simp
    have k: "card (pending s - {i}) = card (pending s) - 1"
      using fp m by simp
    from a show ?thesis
    proof
      assume b: "pcs s i = AtDone"
      with st Done np w have s': "s' = s\<lparr>wg := wg s - 1, pcs := (pcs s)(i := Exited)\<rparr>"
        by (simp add: step_def)
      have pc': "pcs s' = (pcs s)(i := Exited)" and f': "fatal s' = fatal s"
        by (simp_all add: s')
      have h: "holding s' = holding s"
        using b by (simp add: holding_upd [OF pc'] mem_holding insert_absorb)
      have p: "pending s' = pending s - {i}"
        by (simp add: pending_upd [OF pc'])
      have c: "clean s' = clean s"
        using b by (simp add: clean_upd [OF pc' f'])
      show ?thesis
      proof (rule runner_invI)
        show "loop_i s' \<le> count"
          using inv_le [OF inv] by (simp add: s')
        show "(j < loop_i s') = (pcs s' j \<noteq> Unspawned)" for j
          using iff_upd [OF inv_iff [OF inv], of i Exited j] b by (simp add: s')
        show "card (holding s') \<le> semaphore s'"
          using inv_hold_le [OF inv] by (simp add: h) (simp add: s')
        show "semaphore s' \<le> NumWorkers"
          using inv_sem_le [OF inv] by (simp add: s')
        show "semaphore s' = card (holding s')" if "clean s'"
          using inv_sem [OF inv] that by (simp add: h c) (simp add: s')
        show "wg s' = card (pending s')"
          using inv_wg [OF inv] by (simp add: p k) (simp add: s')
        show "pcs s' j = Exited" if "j \<in> fatal s'" for j
          using fatal_upd [OF inv pc' f' _ that] b by simp
        show "loop_i s' = count \<and> wg s' = 0" if "returned s'"
          using that inv_returned [OF inv] w by (simp add: s')
        show "fatal s' \<noteq> {}" if "panicked s'"
          using that np by (simp add: s')
      qed
    next
      assume b: "pcs s i = Unwinding"
      with st Done np have s': "s' = s\<lparr>wg := wg s - 1, fatal := insert i (fatal s),
          pcs := (pcs s)(i := Exited)\<rparr>"
        by (simp add: step_def)
      have pc': "pcs s' = (pcs s)(i := Exited)"
        by (simp add: s')
      have h: "holding s' = holding s"
        using b by (simp add: holding_upd [OF pc'] mem_holding insert_absorb)
      have p: "pending s' = pending s - {i}"
        by (simp add: pending_upd [OF pc'])
      have c: "\<not> clean s'"
        by (simp add: clean_def s')
      show ?thesis
      proof (rule runner_invI)
        show "loop_i s' \<le> count"
          using inv_le [OF inv] by (simp add: s')
        show "(j < loop_i s') = (pcs s' j \<noteq> Unspawned)" for j
          using iff_upd [OF inv_iff [OF inv], of i Exited j] b by (simp add: s')
        show "card (holding s') \<le> semaphore s'"
          using inv_hold_le [OF inv] by (simp add: h) (simp add: s')
        show "semaphore s' \<le> NumWorkers"
          using inv_sem_le [OF inv] by (simp add: s')
        show "semaphore s' = card (holding s')" if "clean s'"
          using that c by simp
        show "wg s' = card (pending s')"
          using inv_wg [OF inv] by (simp add: p k) (simp add: s')
        show "pcs s' j = Exited" if "j \<in> fatal s'" for j
          using that inv_fatal [OF inv, of j] by (auto simp: s')
        show "loop_i s' = count \<and> wg s' = 0" if "returned s'"
          using that inv_returned [OF inv] w by (simp add: s')
        show "fatal s' \<noteq> {}" if "panicked s'"
          by (simp add: s')
      qed
    qed
  next
    case Wait
    with st np have a: "loop_i s = count" "wg s = 0"
      and s': "s' = s\<lparr>returned := True\<rparr>"
      by (simp_all add: step_def split: if_splits)
    have e: "holding s' = holding s" "pending s' = pending s" "clean s' = clean s"
      by (simp_all add: s' holding_def pending_def clean_def)
    show ?thesis
    proof (rule runner_invI)
      show "loop_i s' \<le> count"
        using a by (simp add: s')
      show "(j < loop_i s') = (pcs s' j \<noteq> Unspawned)" for j
        using inv_iff [OF inv, of j] by (simp add: s')
      show "card (holding s') \<le> semaphore s'"
        using inv_hold_le [OF inv] by (simp add: e) (simp add: s')
      show "semaphore s' \<le> NumWorkers"
        using inv_sem_le [OF inv] by (simp add: s')
      show "semaphore s' = card (holding s')" if "clean s'"
        using inv_sem [OF inv] that by (simp add: e) (simp add: s')
      show "wg s' = card (pending s')"
        using inv_wg [OF inv] by (simp add: e) (simp add: s')
      show "pcs s' j = Exited" if "j \<in> fatal s'" for j
        using that inv_fatal [OF inv, of j] by (simp add: s')
      show "loop_i s' = count \<and> wg s' = 0" if "returned s'"
        using a by (simp add: s')
      show "fatal s' \<noteq> {}" if "panicked s'"
        using that np by (simp add: s')
    qed
  next
    case Die
    with st np have a: "fatal s \<noteq> {}" and s': "s' = s\<lparr>panicked := True\<rparr>"
      by (simp_all add: step_def split: if_splits)
    have e: "holding s' = holding s" "pending s' = pending s" "clean s' = clean s"
      by (simp_all add: s' holding_def pending_def clean_def)
    show ?thesis
    proof (rule runner_invI)
      show "loop_i s' \<le> count"
        using inv_le [OF inv] by (simp add: s')
      show "(j < loop_i s') = (pcs s' j \<noteq> Unspawned)" for j
        using inv_iff [OF inv, of j] by (simp add: s')
      show "card (holding s') \<le> semaphore s'"
        using inv_hold_le [OF inv] by (simp add: e) (simp add: s')
      show "semaphore s' \<le> NumWorkers"
        using inv_sem_le [OF inv] by (simp add: s')
      show "semaphore s' = card (holding s')" if "clean s'"
        using inv_sem [OF inv] that by (simp add: e) (simp add: s')
      show "wg s' = card (pending s')"
        using inv_wg [OF inv] by (simp add: e) (simp add: s')
      show "pcs s' j = Exited" if "j \<in> fatal s'" for j
        using that inv_fatal [OF inv, of j] by (simp add: s')
      show "loop_i s' = count \<and> wg s' = 0" if "returned s'"
        using that inv_returned [OF inv] by (simp add: s')
      show "fatal s' \<noteq> {}" if "panicked s'"
        using a by (simp add: s')
    qed
  qed
qed

lemma exec_inv:
  "runner_inv count s \<Longrightarrow> exec count taskFunc evs s = Some s' \<Longrightarrow> runner_inv count s'"
proof (induction evs arbitrary: s)
  case Nil
  then show ?case by simp
next
  case (Cons ev evs)
  then show ?case
    by (auto split: option.splits dest: step_inv)
qed

lemma returned_all_exited:
  assumes "runner_inv count s" and "returned s" and "i < count"
  shows "pcs s i = Exited"
proof -
  from inv_returned [OF assms(1,2)] inv_wg [OF assms(1)]
  have "card (pending s) = 0" "loop_i s = count"
    by simp_all
  with finite_pending [OF assms(1)] have "pending s = {}"
    by simp
  moreover from inv_iff [OF assms(1), of i] assms(3) \<open>loop_i s = count\<close>
  have "pcs s i \<noteq> Unspawned"
    by simp
  ultimately show ?thesis
    by (auto simp: pending_def)
qed

lemma exec_append:
  "exec count taskFunc (xs @ ys) s =
     (case exec count taskFunc xs s of None \<Rightarrow> None | Some s' \<Rightarrow> exec count taskFunc ys s')"
  by (induction xs arbitrary: s) (auto split: option.splits)

lemma step_Task:
  "step count taskFunc (Task i) s = Some s' \<longleftrightarrow>
     \<not> panicked s \<and> pcs s i = InTask
     \<and> s' = (case taskFunc i (shared s) of
                None \<Rightarrow> s\<lparr>pcs := (pcs s)(i := Unwinding)\<rparr>
              | Some rs \<Rightarrow> s\<lparr>shared := rs, pcs := (pcs s)(i := AtRelease)\<rparr>)"
  by (cases "taskFunc i (shared s)") (auto simp: step_def)

lemma step_Done:
  "step count taskFunc (Done i) s = Some s' \<longleftrightarrow>
     \<not> panicked s \<and> (pcs s i = AtDone \<or> pcs s i = Unwinding)
     \<and> s' = (if pcs s i = AtDone
              then (if wg s = 0 then s\<lparr>fatal := insert i (fatal s), pcs := (pcs s)(i := Exited)\<rparr>
                    else s\<lparr>wg := wg s - 1, pcs := (pcs s)(i := Exited)\<rparr>)
              else s\<lparr>wg := wg s - 1, fatal := insert i (fatal s),
                     pcs := (pcs s)(i := Exited)\<rparr>)"
  by (auto simp: step_def)

lemma wg_positive:
  assumes "runner_inv count s" and "pcs s i = AtDone \<or> pcs s i = Unwinding"
  shows "wg s \<noteq> 0"
proof -
  from assms(2) have "i \<in> pending s"
    by (auto simp: mem_pending)
  then have "card (pending s) \<noteq> 0"
    using finite_pending [OF assms(1)] by auto
  then show ?thesis
    using inv_wg [OF assms(1)] by simp
qed

lemma mem_finished:
  "(i \<in> finished s) =
     ((pcs s i = AtRelease \<or> pcs s i = AtDone \<or> pcs s i = Exited) \<and> i \<notin> fatal s)"
  by (simp add: finished_def)

lemma finished_upd:
  assumes "pcs s' = (pcs s)(i := v)" and "fatal s' = fatal s"
  shows "finished s' = (if (v = AtRelease \<or> v = AtDone \<or> v = Exited) \<and> i \<notin> fatal s
                       then insert i (finished s) else finished s - {i})"
  using assms by (auto simp: finished_def)

text \<open>
  An event leaves the set of tasks that have returned and the shared state as they
  are, unless it is a task that returns: then the task joins the set and the shared
  state is what the task made of it.
\<close>

lemma step_finished:
  assumes inv: "runner_inv count s" and st: "step count taskFunc ev s = Some s'"
  shows "finished s' = finished s \<and> shared s' = shared s
       \<or> (\<exists>i rs. i < count \<and> i \<notin> finished s \<and> finished s' = insert i (finished s)
             \<and> taskFunc i (shared s) = Some rs \<and> shared s' = rs)"
proof -
  from st have np: "\<not> panicked s"
    by (auto simp: step_def split: if_splits)
  show ?thesis
  proof (cases ev)
    case Spawn
    have u: "pcs s (loop_i s) = Unspawned"
      using inv by (rule inv_unspawned)
    from st Spawn np
    have s': "s' = s\<lparr>loop_i := loop_i s + 1, wg := wg s + 1,
                      pcs := (pcs s)(loop_i s := AtAcquire)\<rparr>"
      by (simp add: step_def split: if_splits)
    have "pcs s' = (pcs s)(loop_i s := AtAcquire)" "fatal s' = fatal s"
      by (simp_all add: s')
    from finished_upd [OF this] u have "finished s' = finished s"
      by (simp add: mem_finished)
    then show ?thesis
      by (simp add: s')
  next
    case (Acquire i)
    with st np have a: "pcs s i = AtAcquire"
      and s': "s' = s\<lparr>semaphore := semaphore s + 1, pcs := (pcs s)(i := InTask)\<rparr>"
      by (simp_all add: step_def split: if_splits)
    have "pcs s' = (pcs s)(i := InTask)" "fatal s' = fatal s"
      by (simp_all add: s')
    from finished_upd [OF this] a have "finished s' = finished s"
      by (simp add: mem_finished)
    then show ?thesis
      by (simp add: s')
  next
    case (Task i)
    with st have a: "pcs s i = InTask"
      and s': "s' = (case taskFunc i (shared s) of
                None \<Rightarrow> s\<lparr>pcs := (pcs s)(i := Unwinding)\<rparr>
              | Some rs \<Rightarrow> s\<lparr>shared := rs, pcs := (pcs s)(i := AtRelease)\<rparr>)"
      by (simp_all add: step_Task)
    from a have c: "i < count"
      using inv_spawned [OF inv, of i] by simp
    have nf: "i \<notin> fatal s"
      using inv_fatal [OF inv, of i] a by auto
    show ?thesis
    proof (cases "taskFunc i (shared s)")
      case None
      with s' have t: "s' = s\<lparr>pcs := (pcs s)(i := Unwinding)\<rparr>"
        by simp
      have "pcs s' = (pcs s)(i := Unwinding)" "fatal s' = fatal s"
        by (simp_all add: t)
      from finished_upd [OF this] a have "finished s' = finished s"
        by (simp add: mem_finished)
      then show ?thesis
        by (simp add: t)
    next
      case (Some rs)
      with s' have t: "s' = s\<lparr>shared := rs, pcs := (pcs s)(i := AtRelease)\<rparr>"
        by simp
      have "pcs s' = (pcs s)(i := AtRelease)" "fatal s' = fatal s"
        by (simp_all add: t)
      from finished_upd [OF this] nf have "finished s' = insert i (finished s)"
        by simp
      moreover have "i \<notin> finished s"
        using a by (simp add: mem_finished)
      ultimately have "i < count \<and> i \<notin> finished s \<and> finished s' = insert i (finished s)
             \<and> taskFunc i (shared s) = Some rs \<and> shared s' = rs"
        using c Some by (simp add: t)
      then show ?thesis
        by blast
    qed
  next
    case (Release i)
    with st np have a: "pcs s i = AtRelease"
      and s': "s' = s\<lparr>semaphore := semaphore s - 1, pcs := (pcs s)(i := AtDone)\<rparr>"
      by (simp_all add: step_def split: if_splits)
    have nf: "i \<notin> fatal s"
      using inv_fatal [OF inv, of i] a by auto
    have "pcs s' = (pcs s)(i := AtDone)" "fatal s' = fatal s"
      by (simp_all add: s')
    from finished_upd [OF this] a nf have "finished s' = finished s"
      by (simp add: mem_finished insert_absorb)
    then show ?thesis
      by (simp add: s')
  next
    case (Done i)
    with st have a: "pcs s i = AtDone \<or> pcs s i = Unwinding"
      and s': "s' = (if pcs s i = AtDone
              then (if wg s = 0 then s\<lparr>fatal := insert i (fatal s), pcs := (pcs s)(i := Exited)\<rparr>
                    else s\<lparr>wg := wg s - 1, pcs := (pcs s)(i := Exited)\<rparr>)
              else s\<lparr>wg := wg s - 1, fatal := insert i (fatal s),
                     pcs := (pcs s)(i := Exited)\<rparr>)"
      by (simp_all add: step_Done)
    note w = wg_positive [OF inv a]
    have nf: "i \<notin> fatal s"
      using inv_fatal [OF inv, of i] a by auto
    from a show ?thesis
    proof
      assume b: "pcs s i = AtDone"
      with s' w have t: "s' = s\<lparr>wg := wg s - 1, pcs := (pcs s)(i := Exited)\<rparr>"
        by simp
      have "pcs s' = (pcs s)(i := Exited)" "fatal s' = fatal s"
        by (simp_all add: t)
      from finished_upd [OF this] b nf have "finished s' = finished s"
        by (simp add: mem_finished insert_absorb)
      then show ?thesis
        by (simp add: t)
    next
      assume b: "pcs s i = Unwinding"
      with s' have t: "s' = s\<lparr>wg := wg s - 1, fatal := insert i (fatal s),
          pcs := (pcs s)(i := Exited)\<rparr>"
        by simp
      have "finished s' = finished s"
        using b by (auto simp: finished_def t)
      then show ?thesis
        by (simp add: t)
    qed
  next
    case Wait
    with st np have s': "s' = s\<lparr>returned := True\<rparr>"
      by (simp add: step_def split: if_splits)
    then show ?thesis
      by (simp add: finished_def)
  next
    case Die
    with st np have s': "s' = s\<lparr>panicked := True\<rparr>"
      by (simp add: step_def split: if_splits)
    then show ?thesis
      by (simp add: finished_def)
  qed
qed

text \<open>While no task panics, no goroutine unwinds and none is fatal.\<close>

lemma step_clean:
  assumes inv: "runner_inv count s" and st: "step count taskFunc ev s = Some s'"
    and ok: "\<forall>i<count. \<forall>rs. taskFunc i rs \<noteq> None" and cl: "clean s"
  shows "clean s'"
proof (cases ev)
  case (Task i)
  with st have a: "pcs s i = InTask"
    and s': "s' = (case taskFunc i (shared s) of
                None \<Rightarrow> s\<lparr>pcs := (pcs s)(i := Unwinding)\<rparr>
              | Some rs \<Rightarrow> s\<lparr>shared := rs, pcs := (pcs s)(i := AtRelease)\<rparr>)"
    by (simp_all add: step_Task)
  from a have "i < count"
    using inv_spawned [OF inv, of i] by simp
  with ok obtain rs where "taskFunc i (shared s) = Some rs"
    by auto
  with s' have t: "s' = s\<lparr>shared := rs, pcs := (pcs s)(i := AtRelease)\<rparr>"
    by simp
  show ?thesis
    using cl by (simp add: clean_def t)
next
  case (Done i)
  with st have a: "pcs s i = AtDone \<or> pcs s i = Unwinding"
    and s': "s' = (if pcs s i = AtDone
              then (if wg s = 0 then s\<lparr>fatal := insert i (fatal s), pcs := (pcs s)(i := Exited)\<rparr>
                    else s\<lparr>wg := wg s - 1, pcs := (pcs s)(i := Exited)\<rparr>)
              else s\<lparr>wg := wg s - 1, fatal := insert i (fatal s),
                     pcs := (pcs s)(i := Exited)\<rparr>)"
    by (simp_all add: step_Done)
  from cl have "pcs s i \<noteq> Unwinding"
    by (simp add: clean_def)
  with a have b: "pcs s i = AtDone"
    by simp
  with s' wg_positive [OF inv a] have t: "s' = s\<lparr>wg := wg s - 1, pcs := (pcs s)(i := Exited)\<rparr>"
    by simp
  show ?thesis
    using cl by (simp add: clean_def t)
qed (use st cl in \<open>auto simp: step_def clean_def split: if_splits\<close>)

lemma exec_clean:
  assumes "\<forall>i<count. \<forall>rs. taskFunc i rs \<noteq> None"
  shows "runner_inv count s \<Longrightarrow> clean s \<Longrightarrow> exec count taskFunc evs s = Some s'
    \<Longrightarrow> clean s'"
proof (induction evs arbitrary: s)
  case Nil
  then show ?case by simp
next
  case (Cons ev evs)
  from Cons.prems(3) obtain t where t: "step count taskFunc ev s = Some t"
    and e: "exec count taskFunc evs t = Some s'"
    by (auto split: option.splits)
  from Cons.IH [OF step_inv [OF Cons.prems(1) t] step_clean [OF Cons.prems(1) t assms Cons.prems(2)] e]
  show ?case .
qed

lemma clean_not_panicked:
  assumes "runner_inv count s" and "clean s"
  shows "\<not> panicked s"
  using inv_panicked [OF assms(1)] assms(2) by (auto simp: clean_def)

text \<open>Every task that has returned did not panic on the state it ran on.\<close>

lemma exec_ran:
  assumes "runner_inv count s" and "exec count taskFunc evs s = Some s'"
    and "\<forall>i \<in> finished s. \<exists>rs. taskFunc i rs \<noteq> None"
  shows "\<forall>i \<in> finished s'. \<exists>rs. taskFunc i rs \<noteq> None"
  using assms
proof (induction evs arbitrary: s)
  case Nil
  then show ?case by simp
next
  case (Cons ev evs)
  from Cons.prems(2) obtain t where t: "step count taskFunc ev s = Some t"
    and e: "exec count taskFunc evs t = Some s'"
    by (auto split: option.splits)
  have it: "runner_inv count t"
    using step_inv [OF Cons.prems(1) t] .
  from step_finished [OF Cons.prems(1) t] Cons.prems(3)
  have "\<forall>i \<in> finished t. \<exists>rs. taskFunc i rs \<noteq> None"
    by (metis insertE option.distinct(1))
  from Cons.IH [OF it e this] show ?case .
qed

lemma returned_finished:
  assumes "runner_inv count s" and "returned s" and "fatal s = {}"
  shows "finished s = {..<count}"
proof -
  have "i \<in> finished s" if "i < count" for i
    using returned_all_exited [OF assms(1,2) that] assms(3) by (simp add: mem_finished)
  moreover have "i < count" if "i \<in> finished s" for i
  proof -
    from that have "pcs s i \<noteq> Unspawned"
      by (auto simp: mem_finished)
    then show ?thesis
      by (rule inv_spawned [OF assms(1)])
  qed
  ultimately show ?thesis by auto
qed

lemma finished_below:
  assumes "runner_inv count s" and "i \<in> finished s"
  shows "i < count"
proof -
  from assms(2) have "pcs s i \<noteq> Unspawned"
    by (auto simp: mem_finished)
  then show ?thesis
    by (rule inv_spawned [OF assms(1)])
qed

lemma one_round:
  assumes "k < count" and "taskFunc k rs = Some rs'"
  shows "exec count taskFunc [Spawn, Acquire k, Task k, Release k, Done k] (between k rs)
           = Some (between (Suc k) rs')"
proof -
  have "(\<lambda>i. if i < k then Exited else Unspawned)(k := Exited)
          = (\<lambda>i. if i < Suc k then Exited else Unspawned)"
    by (auto simp: fun_eq_iff)
  then show ?thesis
    using assms by (simp add: step_def between_def NumWorkers_def)
qed

lemma rounds:
  assumes "\<forall>i<count. \<forall>rs. taskFunc i rs = Some (rs @ [rcd i])"
  shows "n \<le> count \<Longrightarrow>
     exec count taskFunc
       (concat (map (\<lambda>i. [Spawn, Acquire i, Task i, Release i, Done i]) [0..<n])) (start rs0)
     = Some (between n (rs0 @ map rcd [0..<n]))"
proof (induction n)
  case 0
  show ?case
    by (simp add: start_def between_def)
next
  case (Suc n)
  then have n: "n < count" and ih: "exec count taskFunc
       (concat (map (\<lambda>i. [Spawn, Acquire i, Task i, Release i, Done i]) [0..<n])) (start rs0)
     = Some (between n (rs0 @ map rcd [0..<n]))"
    by simp_all
  from assms n have t: "taskFunc n (rs0 @ map rcd [0..<n]) = Some ((rs0 @ map rcd [0..<n]) @ [rcd n])"
    by blast
  show ?case
    using one_round [of n count taskFunc "rs0 @ map rcd [0..<n]", OF n t] ih
    by (simp only: upt_Suc_append [OF le0] map_append concat_append exec_append)
       (simp del: exec.simps)
qed

lemma one_by_one_returns:
  assumes "\<forall>i<count. \<forall>rs. taskFunc i rs = Some (rs @ [rcd i])"
  shows "runConcurrent count taskFunc (one_by_one count) rs0
           = Some (Returns (rs0 @ map rcd [0..<count]))"
  using rounds [OF assms, of count rs0]
  by (simp add: runConcurrent_def one_by_one_def exec_append step_def between_def)

text \<open>An execution that has neither returned nor ended in the exit of the process can go on.\<close>

lemma no_deadlock:
  assumes inv: "runner_inv count s" and "\<not> panicked s" and "\<not> returned s"
  shows "\<exists>ev s'. step count taskFunc ev s = Some s'"
proof -
  have "loop_i s \<le> count"
    using inv by (rule inv_le)
  then consider (spawn) "loop_i s < count"
    | (wait) "loop_i s = count" "wg s = 0"
    | (busy) "wg s \<noteq> 0"
    by linarith
  then show ?thesis
  proof cases
    case spawn
    with assms(2,3) have "step count taskFunc Spawn s \<noteq> None"
      by (simp add: step_def)
    then show ?thesis by blast
  next
    case wait
    with assms(2,3) have "step count taskFunc Wait s \<noteq> None"
      by (simp add: step_def)
    then show ?thesis by blast
  next
    case busy
    show ?thesis
    proof (cases "clean s")
      case False
      then consider (unwinding) j where "pcs s j = Unwinding" | (fatal) "fatal s \<noteq> {}"
        by (auto simp: clean_def)
      then show ?thesis
      proof cases
        case unwinding
        with assms(2) have "step count taskFunc (Done j) s \<noteq> None"
          by (simp add: step_def)
        then show ?thesis by blast
      next
        case fatal
        with assms(2) have "step count taskFunc Die s \<noteq> None"
          by (simp add: step_def)
        then show ?thesis by blast
      qed
    next
      case True
      from busy have "card (pending s) \<noteq> 0"
        using inv_wg [OF inv] by simp
      then obtain i where i: "i \<in> pending s"
        by (cases "pending s = {}") auto
      from True have nu: "pcs s i \<noteq> Unwinding"
        by (simp add: clean_def)
      show ?thesis
      proof (cases "holding s = {}")
        case empty: True
        then have z: "semaphore s = 0"
          using inv_sem [OF inv True] by simp
        show ?thesis
        proof (cases "pcs s i")
          case AtAcquire
          with assms(2) z have "step count taskFunc (Acquire i) s \<noteq> None"
            by (simp add: step_def NumWorkers_def)
          then show ?thesis by blast
        next
          case AtDone
          with assms(2) have "step count taskFunc (Done i) s \<noteq> None"
            by (simp add: step_def)
          then show ?thesis by blast
        qed (use i empty nu in \<open>auto simp: pending_def holding_def\<close>)
      next
        case False
        then obtain j where j: "j \<in> holding s"
          by auto
        then have "card (holding s) \<noteq> 0"
          using finite_holding [OF inv] by auto
        then have p: "0 < semaphore s"
          using inv_hold_le [OF inv] by simp
        from j have "pcs s j = InTask \<or> pcs s j = AtRelease"
          by (simp add: holding_def)
        then show ?thesis
        proof
          assume "pcs s j = InTask"
          with assms(2) have "step count taskFunc (Task j) s \<noteq> None"
            by (simp add: step_def split: option.splits)
          then show ?thesis by blast
        next
          assume "pcs s j = AtRelease"
          with assms(2) p have "step count taskFunc (Release j) s \<noteq> None"
            by (simp add: step_def)
          then show ?thesis by blast
        qed
      qed
    qed
  qed
qed

lemma exec_records_gen:
  assumes shape: "\<forall>i<count. \<forall>rs. taskFunc i rs =
      (case body i of None \<Rightarrow> None | Some r \<Rightarrow> Some (rs @ [r]))"
  shows "runner_inv count s \<Longrightarrow> exec count taskFunc evs s = Some s' \<Longrightarrow>
      \<exists>ord. distinct ord \<and> set ord = finished s \<and> (\<forall>i \<in> set ord. body i \<noteq> None)
           \<and> shared s = rs0 @ map (the \<circ> body) ord \<Longrightarrow>
      \<exists>ord. distinct ord \<and> set ord = finished s' \<and> (\<forall>i \<in> set ord. body i \<noteq> None)
           \<and> shared s' = rs0 @ map (the \<circ> body) ord"
proof (induction evs arbitrary: s)
  case Nil
  then show ?case by simp
next
  case (Cons ev evs)
  from Cons.prems(2) obtain t where t: "step count taskFunc ev s = Some t"
    and e: "exec count taskFunc evs t = Some s'"
    by (auto split: option.splits)
  have it: "runner_inv count t"
    using step_inv [OF Cons.prems(1) t] .
  from Cons.prems(3) obtain ord where o: "distinct ord" "set ord = finished s"
    "\<forall>i \<in> set ord. body i \<noteq> None" "shared s = rs0 @ map (the \<circ> body) ord"
    by blast
  have "\<exists>ord. distinct ord \<and> set ord = finished t \<and> (\<forall>i \<in> set ord. body i \<noteq> None)
           \<and> shared t = rs0 @ map (the \<circ> body) ord"
    using step_finished [OF Cons.prems(1) t]
  proof
    assume "finished t = finished s \<and> shared t = shared s"
    with o show ?thesis by auto
  next
    assume "\<exists>i rs. i < count \<and> i \<notin> finished s \<and> finished t = insert i (finished s)
             \<and> taskFunc i (shared s) = Some rs \<and> shared t = rs"
    then obtain i rs where i: "i < count" "i \<notin> finished s" "finished t = insert i (finished s)"
      "taskFunc i (shared s) = Some rs" "shared t = rs"
      by blast
    from i(1) shape have "taskFunc i (shared s) =
        (case body i of None \<Rightarrow> None | Some r \<Rightarrow> Some (shared s @ [r]))"
      by blast
    with i(4) obtain r where r: "body i = Some r" "rs = shared s @ [r]"
      by (cases "body i") auto
    with o i have "distinct (ord @ [i]) \<and> set (ord @ [i]) = finished t
        \<and> (\<forall>j \<in> set (ord @ [i]). body j \<noteq> None)
        \<and> shared t = rs0 @ map (the \<circ> body) (ord @ [i])"
      by auto
    then show ?thesis by blast
  qed
  from Cons.IH [OF it e this] show ?case .
qed

lemma start_records:
  "\<exists>ord. distinct ord \<and> set ord = finished (start rs0) \<and> (\<forall>i \<in> set ord. body i \<noteq> None)
      \<and> shared (start rs0) = rs0 @ map (the \<circ> body) ord"
  by (simp add: start_def finished_def)

lemma runConcurrent_Returns:
  "runConcurrent count taskFunc sched rs0 = Some (Returns rs') \<longleftrightarrow>
     (\<exists>s. exec count taskFunc sched (start rs0) = Some s \<and> \<not> panicked s \<and> returned s
          \<and> fatal s = {} \<and> shared s = rs')"
  by (auto simp: runConcurrent_def split: option.splits)

lemma runConcurrent_Some:
  "runConcurrent count taskFunc sched rs0 = Some out \<longleftrightarrow>
     (\<exists>s. exec count taskFunc sched (start rs0) = Some s \<and> (panicked s \<or> returned s)
          \<and> out = (if panicked s then Panics (shared s)
                   else if fatal s = {} then Returns (shared s)
                   else ReturnsPanicking (shared s)))"
  by (auto simp: runConcurrent_def split: option.splits)

text \<open>
  A phase whose tasks each append one record when they return leaves, when it returns
  with no panic on its way, one record per task, in completion order.
\<close>

lemma phase_records_gen:
  assumes "\<forall>i<count. \<forall>rs. taskFunc i rs =
      (case body i of None \<Rightarrow> None | Some r \<Rightarrow> Some (rs @ [r]))"
    and "runConcurrent count taskFunc sched rs0 = Some (Returns rs')"
  shows "\<exists>ord. distinct ord \<and> set ord = {..<count} \<and> (\<forall>i<count. body i \<noteq> None)
           \<and> rs' = rs0 @ map (the \<circ> body) ord"
proof -
  from assms(2) obtain s where e: "exec count taskFunc sched (start rs0) = Some s"
    and o: "returned s" "fatal s = {}" "shared s = rs'"
    by (auto simp: runConcurrent_Returns)
  have i: "runner_inv count s"
    using exec_inv [OF start_inv e] .
  from exec_records_gen [OF assms(1) start_inv e start_records]
  obtain ord where r: "distinct ord" "set ord = finished s" "\<forall>i \<in> set ord. body i \<noteq> None"
    "shared s = rs0 @ map (the \<circ> body) ord"
    by blast
  with o returned_finished [OF i o(1,2)] show ?thesis
    by auto
qed

lemma phase_no_panic:
  assumes "\<forall>i<count. \<forall>rs. taskFunc i rs \<noteq> None"
    and "runConcurrent count taskFunc sched rs0 = Some out"
  shows "\<exists>rs'. out = Returns rs'"
proof -
  from assms(2) obtain s where e: "exec count taskFunc sched (start rs0) = Some s"
    and o: "out = (if panicked s then Panics (shared s)
                   else if fatal s = {} then Returns (shared s)
                   else ReturnsPanicking (shared s))"
    by (auto simp: runConcurrent_Some)
  have "clean (start rs0)"
    by (simp add: clean_def start_def)
  from exec_clean [OF assms(1) start_inv this e] have c: "clean s" .
  from clean_not_panicked [OF exec_inv [OF start_inv e] c] c o show ?thesis
    by (simp add: clean_def)
qed

text \<open>A phase with a task that panics whenever it runs never ends in a plain return.\<close>

lemma phase_panics:
  assumes "k < count" and "\<forall>rs. taskFunc k rs = None"
    and "runConcurrent count taskFunc sched rs0 = Some out"
  shows "out \<noteq> Returns rs'"
proof
  assume "out = Returns rs'"
  with assms(3) obtain s where e: "exec count taskFunc sched (start rs0) = Some s"
    and o: "returned s" "fatal s = {}"
    by (auto simp: runConcurrent_Returns)
  have i: "runner_inv count s"
    using exec_inv [OF start_inv e] .
  have "\<forall>i \<in> finished (start rs0). \<exists>rs. taskFunc i rs \<noteq> None"
    by (simp add: start_def finished_def)
  from exec_ran [OF start_inv e this]
  have r: "\<forall>i \<in> finished s. \<exists>rs. taskFunc i rs \<noteq> None" .
  have "k \<in> finished s"
    using returned_finished [OF i o] assms(1) by simp
  with r have "\<exists>rs. taskFunc k rs \<noteq> None"
    by (rule bspec)
  with assms(2) show False
    by simp
qed

lemma sum_rank_upd:
  assumes "k < (count::nat)"
  shows "(\<Sum>i<count. rank ((f(k := v)) i)) + rank (f k) = (\<Sum>i<count. rank (f i)) + rank v"
proof -
  have m: "k \<in> {..<count}" "finite {..<count}"
    using assms by simp_all
  have "(\<Sum>i \<in> {..<count} - {k}. rank ((f(k := v)) i)) = (\<Sum>i \<in> {..<count} - {k}. rank (f i))"
    by (rule sum.cong) auto
  then show ?thesis
    by (simp add: sum.remove [OF m(2,1)])
qed

lemma step_progress:
  assumes inv: "runner_inv count s" and st: "step count taskFunc ev s = Some s'"
  shows "Suc (progress count s) \<le> progress count s'"
proof -
  from st have np: "\<not> panicked s"
    by (auto simp: step_def split: if_splits)
  show ?thesis
  proof (cases ev)
    case Spawn
    with st np have l: "loop_i s < count"
      and s': "s' = s\<lparr>loop_i := loop_i s + 1, wg := wg s + 1,
                      pcs := (pcs s)(loop_i s := AtAcquire)\<rparr>"
      by (simp_all add: step_def split: if_splits)
    show ?thesis
      using sum_rank_upd [OF l, of "pcs s" AtAcquire] inv_unspawned [OF inv]
      by (simp add: s' progress_def)
  next
    case (Acquire i)
    with st np have a: "pcs s i = AtAcquire"
      and s': "s' = s\<lparr>semaphore := semaphore s + 1, pcs := (pcs s)(i := InTask)\<rparr>"
      by (simp_all add: step_def split: if_splits)
    from a have "i < count"
      using inv_spawned [OF inv, of i] by simp
    from sum_rank_upd [OF this, of "pcs s" InTask] a show ?thesis
      by (simp add: s' progress_def)
  next
    case (Task i)
    with st have a: "pcs s i = InTask"
      and s': "s' = (case taskFunc i (shared s) of
                None \<Rightarrow> s\<lparr>pcs := (pcs s)(i := Unwinding)\<rparr>
              | Some rs \<Rightarrow> s\<lparr>shared := rs, pcs := (pcs s)(i := AtRelease)\<rparr>)"
      by (simp_all add: step_Task)
    from a have c: "i < count"
      using inv_spawned [OF inv, of i] by simp
    from sum_rank_upd [OF c, of "pcs s" AtRelease] sum_rank_upd [OF c, of "pcs s" Unwinding] a
    show ?thesis
      by (cases "taskFunc i (shared s)") (simp_all add: s' progress_def)
  next
    case (Release i)
    with st np have a: "pcs s i = AtRelease"
      and s': "s' = s\<lparr>semaphore := semaphore s - 1, pcs := (pcs s)(i := AtDone)\<rparr>"
      by (simp_all add: step_def split: if_splits)
    from a have "i < count"
      using inv_spawned [OF inv, of i] by simp
    from sum_rank_upd [OF this, of "pcs s" AtDone] a show ?thesis
      by (simp add: s' progress_def)
  next
    case (Done i)
    with st have a: "pcs s i = AtDone \<or> pcs s i = Unwinding"
      and s': "s' = (if pcs s i = AtDone
              then (if wg s = 0 then s\<lparr>fatal := insert i (fatal s), pcs := (pcs s)(i := Exited)\<rparr>
                    else s\<lparr>wg := wg s - 1, pcs := (pcs s)(i := Exited)\<rparr>)
              else s\<lparr>wg := wg s - 1, fatal := insert i (fatal s),
                     pcs := (pcs s)(i := Exited)\<rparr>)"
      by (simp_all add: step_Done)
    from a have "i < count"
      using inv_spawned [OF inv, of i] by auto
    from sum_rank_upd [OF this, of "pcs s" Exited] a show ?thesis
      by (auto simp: s' progress_def)
  next
    case Wait
    with st np have a: "\<not> returned s" and s': "s' = s\<lparr>returned := True\<rparr>"
      by (simp_all add: step_def split: if_splits)
    then show ?thesis
      by (simp add: progress_def)
  next
    case Die
    with st np have s': "s' = s\<lparr>panicked := True\<rparr>"
      by (simp add: step_def split: if_splits)
    with np show ?thesis
      by (simp add: progress_def)
  qed
qed

lemma exec_progress:
  "runner_inv count s \<Longrightarrow> exec count taskFunc evs s = Some s'
    \<Longrightarrow> progress count s + length evs \<le> progress count s'"
proof (induction evs arbitrary: s)
  case Nil
  then show ?case by simp
next
  case (Cons ev evs)
  from Cons.prems(2) obtain t where t: "step count taskFunc ev s = Some t"
    and e: "exec count taskFunc evs t = Some s'"
    by (auto split: option.splits)
  from Cons.IH [OF step_inv [OF Cons.prems(1) t] e] step_progress [OF Cons.prems(1) t]
  show ?case by simp
qed

lemma rank_le: "rank p \<le> 4"
  by (cases p) simp_all

lemma progress_bound:
  assumes "runner_inv count s"
  shows "progress count s \<le> 5 * count + 2"
proof -
  have "(\<Sum>i<count. rank (pcs s i)) \<le> (\<Sum>i<count. 4)"
    by (rule sum_mono) (rule rank_le)
  with inv_le [OF assms] show ?thesis
    by (simp add: progress_def)
qed

text \<open>No execution of a phase has more than \<open>5 * count + 2\<close> events.\<close>

lemma exec_length:
  assumes "exec count taskFunc evs (start rs) = Some s"
  shows "length evs \<le> 5 * count + 2"
proof -
  have "progress count (start rs) = 0"
    by (simp add: progress_def start_def)
  with exec_progress [OF start_inv assms] progress_bound [OF exec_inv [OF start_inv assms]]
  show ?thesis by simp
qed

lemma phase_records:
  assumes "\<forall>i<count. \<forall>rs. taskFunc i rs = Some (rs @ [rcd i])"
    and "runConcurrent count taskFunc sched rs0 = Some out"
  shows "\<exists>ord. distinct ord \<and> set ord = {..<count} \<and> out = Returns (rs0 @ map rcd ord)"
proof -
  from assms(1) have "\<forall>i<count. \<forall>rs. taskFunc i rs \<noteq> None"
    by simp
  from phase_no_panic [OF this assms(2)] obtain rs' where o: "out = Returns rs'"
    by blast
  from assms(1) have "\<forall>i<count. \<forall>rs. taskFunc i rs =
      (case (Some \<circ> rcd) i of None \<Rightarrow> None | Some r \<Rightarrow> Some (rs @ [r]))"
    by simp
  from phase_records_gen [OF this assms(2) [unfolded o]]
  obtain ord where "distinct ord" "set ord = {..<count}"
    "rs' = rs0 @ map (the \<circ> (Some \<circ> rcd)) ord"
    by blast
  moreover have "the \<circ> (Some \<circ> rcd) = rcd"
    by (simp add: fun_eq_iff)
  ultimately show ?thesis
    using o by auto
qed

lemma phase1_appends:
  assumes "i < length ids" and "client_contract (calls i)"
  shows "phase1 calls ids i rs = Some (rs @ [outcome ''create_cart'' True (calls i) (ids ! i)])"
  using assms by (simp add: phase1_def createCart_outcome)

lemma phase2_appends:
  assumes "ids \<noteq> []" and "client_contract (calls i)"
  shows "phase2 calls ids i rs
    = Some (rs @ [outcome ''add_items'' True (calls i) (ids ! (i mod length ids))])"
  using assms by (simp add: phase2_def addItemToCart_outcome)

lemma phase3_appends:
  assumes "ids \<noteq> []" and "client_contract (calls i)"
  shows "phase3 calls ids i rs
    = Some (rs @ [outcome ''get_cart'' False (calls i) (ids ! (i mod length ids))])"
  using assms by (simp add: phase3_def getCart_outcome)

subsection \<open>The worker limit\<close>

text \<open>
  C5: in every state an execution of the runner can reach, the goroutines between
  acquiring and releasing a slot (those inside their task among them) are at most
  NumWorkers = 10; a further goroutine is admitted only while fewer than NumWorkers
  hold a slot, that is, the eleventh only after an admitted one has released; and the
  call has returned only if every one of the count goroutines has exited.
\<close>

theorem worker_limit:
  assumes "exec count taskFunc evs (start rs) = Some s"
  shows "finite (holding s) \<and> card (holding s) \<le> NumWorkers
       \<and> card {i. pcs s i = InTask} \<le> NumWorkers
       \<and> (\<forall>i. step count taskFunc (Acquire i) s \<noteq> None \<longrightarrow> card (holding s) < NumWorkers)
       \<and> (returned s \<longrightarrow> (\<forall>i<count. pcs s i = Exited))"
proof -
  have i: "runner_inv count s"
    using exec_inv [OF start_inv assms] .
  have h: "card (holding s) \<le> NumWorkers"
    using inv_hold_le [OF i] inv_sem_le [OF i] by simp
  have "{i. pcs s i = InTask} \<subseteq> holding s"
    by (auto simp: holding_def)
  then have "card {i. pcs s i = InTask} \<le> card (holding s)"
    by (rule card_mono [OF finite_holding [OF i]])
  with h have t: "card {i. pcs s i = InTask} \<le> NumWorkers"
    by simp
  have "card (holding s) < NumWorkers" if "step count taskFunc (Acquire j) s \<noteq> None" for j
    using that inv_hold_le [OF i] by (simp add: step_def split: if_splits)
  with h t show ?thesis
    using finite_holding [OF i] returned_all_exited [OF i] by blast
qed

text \<open>Eleven goroutines, ten admitted: the eleventh acquire cannot happen.\<close>

theorem worker_limit_witness:
  "\<exists>s. exec 11 (\<lambda>i rs. Some rs) (replicate 11 Spawn @ map Acquire [0..<10]) (start []) = Some s
      \<and> semaphore s = 10 \<and> card (holding s) \<le> NumWorkers
      \<and> step 11 (\<lambda>i rs. Some rs) (Acquire 10) s = None"
proof -
  have "map_option semaphore
      (exec 11 (\<lambda>i rs. Some rs) (replicate 11 Spawn @ map Acquire [0..<10]) (start [])) = Some 10"
    by code_simp
  then obtain s where
    e: "exec 11 (\<lambda>i rs. Some rs) (replicate 11 Spawn @ map Acquire [0..<10]) (start []) = Some s"
    and m: "semaphore s = 10"
    by auto
  from m have "step 11 (\<lambda>i rs. Some rs) (Acquire 10) s = None"
    by (simp add: step_def NumWorkers_def)
  with worker_limit [OF e] e m show ?thesis
    by blast
qed

subsection \<open>A task that panics\<close>

text \<open>
  C1 as stated fails: with two tasks of which the first panics, the run below ends in
  the exit of the process by that panic. The fault is not caught, no record is made of
  it (the results stay empty), and the second task, already admitted, never completes.
\<close>

theorem panic_ends_process:
  "runConcurrent 2
     (\<lambda>i. if i = 0 then (\<lambda>rs. None)
          else createCart \<lparr>resp = Some 201, err = None, elapsed = 1/4, now = ''t''\<rparr> 7)
     [Spawn, Spawn, Acquire 0, Acquire 1, Task 0, Done 0, Die] [] = Some (Panics [])"
  by (simp add: runConcurrent_def step_def start_def NumWorkers_def)

lemma outcome_failed: "err c \<noteq> None \<Longrightarrow> \<not> Success (outcome kind writes c cid)"
  by (simp add: outcome_def)

lemma phase_left:
  assumes "\<forall>i<count. \<forall>rs. taskFunc i rs =
      (case body i of None \<Rightarrow> None | Some r \<Rightarrow> Some (rs @ [r]))"
    and "exec count taskFunc evs (start rs0) = Some s"
  shows "\<exists>ord. distinct ord \<and> set ord = finished s
      \<and> (\<forall>i \<in> set ord. i < count \<and> body i \<noteq> None)
      \<and> shared s = rs0 @ map (the \<circ> body) ord"
proof -
  from exec_records_gen [OF assms(1) start_inv assms(2) start_records]
  obtain ord where o: "distinct ord" "set ord = finished s" "\<forall>i \<in> set ord. body i \<noteq> None"
    "shared s = rs0 @ map (the \<circ> body) ord"
    by blast
  have "i < count" if "i \<in> set ord" for i
    using finished_below [OF exec_inv [OF start_inv assms(2)]] that o(2) by simp
  with o show ?thesis
    by blast
qed

text \<open>
  C1 amended: the runner installs no fault handler, and a fault of a task ends the
  process.
  \<^item> If a task raises a fault whenever it runs, no complete run of the phase ends in a
    plain return: the process exits by the panic, or the call returns while the panic
    is taking the process down. If no task can fault, every complete run returns.
  \<^item> No record is made for a fault: when each task either appends one record or faults,
    the results are at every moment the initial ones followed by one record for each
    task whose body has returned, in completion order, and nothing else; so it is at
    the end of a complete run, and after a plain return every task has its record.
  \<^item> The phase cannot hang: an execution has at most \<open>5 * count + 2\<close> events, one that
    has neither returned nor ended the process can take a further event, and the call
    has returned only if every goroutine has exited.
  \<^item> The three task bodies of the driver raise no fault on anything net/http can
    return: each appends exactly the record of its call, and the record of a call that
    returned an error has success = false.
\<close>

theorem fault_ends_process:
  "(runConcurrent count taskFunc sched rs0 = Some out \<longrightarrow>
      ((\<exists>k<count. \<forall>rs. taskFunc k rs = None) \<longrightarrow>
         (\<exists>rs'. out = Panics rs' \<or> out = ReturnsPanicking rs'))
    \<and> ((\<forall>i<count. \<forall>rs. taskFunc i rs \<noteq> None) \<longrightarrow> (\<exists>rs'. out = Returns rs')))
  \<and> ((\<forall>i<count. \<forall>rs. taskFunc i rs =
         (case body i of None \<Rightarrow> None | Some r \<Rightarrow> Some (rs @ [r]))) \<longrightarrow>
      (exec count taskFunc evs (start rs0) = Some s \<longrightarrow>
         (\<exists>ord. distinct ord \<and> set ord = finished s
            \<and> (\<forall>i \<in> set ord. i < count \<and> body i \<noteq> None)
            \<and> shared s = rs0 @ map (the \<circ> body) ord))
    \<and> (runConcurrent count taskFunc sched rs0 = Some out \<longrightarrow>
         (\<exists>ord. distinct ord \<and> (\<forall>i \<in> set ord. i < count \<and> body i \<noteq> None)
            \<and> results_left out = rs0 @ map (the \<circ> body) ord
            \<and> ((\<exists>rs'. out = Returns rs') \<longrightarrow> set ord = {..<count}))))
  \<and> (exec count taskFunc evs (start rs0) = Some s \<longrightarrow>
        length evs \<le> 5 * count + 2
      \<and> (\<not> panicked s \<and> \<not> returned s \<longrightarrow> (\<exists>ev s'. step count taskFunc ev s = Some s'))
      \<and> (returned s \<longrightarrow> (\<forall>i<count. pcs s i = Exited)))
  \<and> (client_contract c \<longrightarrow>
        createCart c cid rs = Some (rs @ [outcome ''create_cart'' True c cid])
      \<and> addItemToCart c cid rs = Some (rs @ [outcome ''add_items'' True c cid])
      \<and> getCart c cid rs = Some (rs @ [outcome ''get_cart'' False c cid])
      \<and> (err c \<noteq> None \<longrightarrow>
            \<not> Success (outcome ''create_cart'' True c cid)
          \<and> \<not> Success (outcome ''add_items'' True c cid)
          \<and> \<not> Success (outcome ''get_cart'' False c cid)))"
proof -
  have a: "\<exists>rs'. out = Panics rs' \<or> out = ReturnsPanicking rs'"
    if "runConcurrent count taskFunc sched rs0 = Some out" "\<exists>k<count. \<forall>rs. taskFunc k rs = None"
  proof -
    from that(2) obtain k where k: "k < count" "\<forall>rs. taskFunc k rs = None"
      by blast
    from phase_panics [OF k that(1)] show ?thesis
      by (cases out) auto
  qed
  have b: "\<exists>rs'. out = Returns rs'"
    if "runConcurrent count taskFunc sched rs0 = Some out" "\<forall>i<count. \<forall>rs. taskFunc i rs \<noteq> None"
    using phase_no_panic [OF that(2,1)] .
  have c1: "\<exists>ord. distinct ord \<and> set ord = finished s
            \<and> (\<forall>i \<in> set ord. i < count \<and> body i \<noteq> None)
            \<and> shared s = rs0 @ map (the \<circ> body) ord"
    if "\<forall>i<count. \<forall>rs. taskFunc i rs =
         (case body i of None \<Rightarrow> None | Some r \<Rightarrow> Some (rs @ [r]))"
      "exec count taskFunc evs (start rs0) = Some s"
    using phase_left [OF that] .
  have c2: "\<exists>ord. distinct ord \<and> (\<forall>i \<in> set ord. i < count \<and> body i \<noteq> None)
            \<and> results_left out = rs0 @ map (the \<circ> body) ord
            \<and> ((\<exists>rs'. out = Returns rs') \<longrightarrow> set ord = {..<count})"
    if sh: "\<forall>i<count. \<forall>rs. taskFunc i rs =
         (case body i of None \<Rightarrow> None | Some r \<Rightarrow> Some (rs @ [r]))"
      and rc: "runConcurrent count taskFunc sched rs0 = Some out"
  proof -
    from rc obtain t where e: "exec count taskFunc sched (start rs0) = Some t"
      and o: "out = (if panicked t then Panics (shared t)
                   else if fatal t = {} then Returns (shared t)
                   else ReturnsPanicking (shared t))"
      and f: "panicked t \<or> returned t"
      by (auto simp: runConcurrent_Some)
    from phase_left [OF sh e] obtain ord where r: "distinct ord" "set ord = finished t"
      "\<forall>i \<in> set ord. i < count \<and> body i \<noteq> None" "shared t = rs0 @ map (the \<circ> body) ord"
      by blast
    from o have l: "results_left out = shared t"
      by simp
    have "set ord = {..<count}" if "\<exists>rs'. out = Returns rs'"
    proof -
      from that o have "\<not> panicked t" "fatal t = {}"
        by (auto split: if_splits)
      with f returned_finished [OF exec_inv [OF start_inv e]] r(2) show ?thesis
        by simp
    qed
    with r l show ?thesis
      by auto
  qed
  have d: "length evs \<le> 5 * count + 2
      \<and> (\<not> panicked s \<and> \<not> returned s \<longrightarrow> (\<exists>ev s'. step count taskFunc ev s = Some s'))
      \<and> (returned s \<longrightarrow> (\<forall>i<count. pcs s i = Exited))"
    if "exec count taskFunc evs (start rs0) = Some s"
    using exec_length [OF that] no_deadlock [OF exec_inv [OF start_inv that]]
      returned_all_exited [OF exec_inv [OF start_inv that]]
    by blast
  have e: "createCart c cid rs = Some (rs @ [outcome ''create_cart'' True c cid])
      \<and> addItemToCart c cid rs = Some (rs @ [outcome ''add_items'' True c cid])
      \<and> getCart c cid rs = Some (rs @ [outcome ''get_cart'' False c cid])
      \<and> (err c \<noteq> None \<longrightarrow>
            \<not> Success (outcome ''create_cart'' True c cid)
          \<and> \<not> Success (outcome ''add_items'' True c cid)
          \<and> \<not> Success (outcome ''get_cart'' False c cid))"
    if "client_contract c"
    using that
    by (simp add: createCart_outcome addItemToCart_outcome getCart_outcome outcome_failed)
  from a b c1 c2 d e show ?thesis
    by blast
qed

text \<open>
  Two create-cart tasks. When the first one faults, one run has the call return with
  the record of the second task only while the process is going down, another has the
  process exit with that record; when the first call is refused by the network instead,
  the phase returns with both records, in completion order. Halfway through such a run
  the execution can go on.
\<close>

theorem fault_ends_process_witness:
  "runConcurrent 2 (\<lambda>i. if i = 0 then (\<lambda>rs. None) else createCart (sample_calls i) 7)
     [Spawn, Spawn, Acquire 0, Acquire 1, Task 0, Task 1, Release 1, Done 1, Done 0, Wait] []
   = Some (ReturnsPanicking
       [\<lparr>Operation = ''create_cart'', ResponseTime = 250, Success = True, StatusCode = 200,
         Timestamp = ''t1'', CustomerID = 7\<rparr>])
   \<and> runConcurrent 2 (\<lambda>i. if i = 0 then (\<lambda>rs. None) else createCart (sample_calls i) 7)
     [Spawn, Spawn, Acquire 0, Acquire 1, Task 0, Task 1, Done 0, Die] []
   = Some (Panics
       [\<lparr>Operation = ''create_cart'', ResponseTime = 250, Success = True, StatusCode = 200,
         Timestamp = ''t1'', CustomerID = 7\<rparr>])
   \<and> runConcurrent 2 (\<lambda>i. createCart (sample_calls i) 7)
     [Spawn, Spawn, Acquire 1, Acquire 0, Task 1, Task 0, Release 0, Release 1, Done 1, Done 0, Wait]
     []
   = Some (Returns
       [\<lparr>Operation = ''create_cart'', ResponseTime = 250, Success = True, StatusCode = 200,
         Timestamp = ''t1'', CustomerID = 7\<rparr>,
        \<lparr>Operation = ''create_cart'', ResponseTime = 2000, Success = False, StatusCode = 0,
         Timestamp = ''t0'', CustomerID = 7\<rparr>])
   \<and> (\<exists>s. exec 2 (\<lambda>i. createCart (sample_calls i) 7) [Spawn, Spawn, Acquire 1, Task 1] (start [])
          = Some s
        \<and> (\<exists>ev s'. step 2 (\<lambda>i. createCart (sample_calls i) 7) ev s = Some s'))
   \<and> client_contract (sample_calls 0)
   \<and> createCart (sample_calls 0) 7 []
     = Some [\<lparr>Operation = ''create_cart'', ResponseTime = 2000, Success = False, StatusCode = 0,
         Timestamp = ''t0'', CustomerID = 7\<rparr>]"
proof -
  let ?f = "\<lambda>i. if i = 0 then (\<lambda>rs. None) else createCart (sample_calls i) 7"
  let ?t = "\<lambda>i. createCart (sample_calls i) 7"
  note inst = fault_ends_process [of 2 ?t
      "[Spawn, Spawn, Acquire 1, Acquire 0, Task 1, Task 0, Release 0, Release 1, Done 1, Done 0, Wait]"
      "[]" _ _ "[Spawn, Spawn, Acquire 1, Task 1]" _ "sample_calls 0" 7 "[]"]
  have p: "runConcurrent 2 ?f
     [Spawn, Spawn, Acquire 0, Acquire 1, Task 0, Task 1, Release 1, Done 1, Done 0, Wait] []
   = Some (ReturnsPanicking
       [\<lparr>Operation = ''create_cart'', ResponseTime = 250, Success = True, StatusCode = 200,
         Timestamp = ''t1'', CustomerID = 7\<rparr>])"
    by (simp add: runConcurrent_def step_def start_def NumWorkers_def createCart_def
        sample_calls_def addResult_def Let_def)
  have q: "runConcurrent 2 ?f
     [Spawn, Spawn, Acquire 0, Acquire 1, Task 0, Task 1, Done 0, Die] []
   = Some (Panics
       [\<lparr>Operation = ''create_cart'', ResponseTime = 250, Success = True, StatusCode = 200,
         Timestamp = ''t1'', CustomerID = 7\<rparr>])"
    by (simp add: runConcurrent_def step_def start_def NumWorkers_def createCart_def
        sample_calls_def addResult_def Let_def)
  have r: "runConcurrent 2 ?t
     [Spawn, Spawn, Acquire 1, Acquire 0, Task 1, Task 0, Release 0, Release 1, Done 1, Done 0, Wait]
     []
   = Some (Returns
       [\<lparr>Operation = ''create_cart'', ResponseTime = 250, Success = True, StatusCode = 200,
         Timestamp = ''t1'', CustomerID = 7\<rparr>,
        \<lparr>Operation = ''create_cart'', ResponseTime = 2000, Success = False, StatusCode = 0,
         Timestamp = ''t0'', CustomerID = 7\<rparr>])"
    by (simp add: runConcurrent_def step_def start_def NumWorkers_def createCart_def
        sample_calls_def addResult_def Let_def)
  have "map_option (\<lambda>s. (panicked s, returned s))
      (exec 2 ?t [Spawn, Spawn, Acquire 1, Task 1] (start [])) = Some (False, False)"
    by (simp add: step_def start_def NumWorkers_def createCart_def
        sample_calls_def addResult_def Let_def)
  then obtain s where e: "exec 2 ?t [Spawn, Spawn, Acquire 1, Task 1] (start []) = Some s"
    and l: "\<not> panicked s" "\<not> returned s"
    by auto
  from inst e l have "\<exists>ev s'. step 2 ?t ev s = Some s'"
    by blast
  with e have x: "\<exists>s. exec 2 ?t [Spawn, Spawn, Acquire 1, Task 1] (start []) = Some s
        \<and> (\<exists>ev s'. step 2 ?t ev s = Some s')"
    by blast
  have c: "client_contract (sample_calls 0)"
    by (simp add: client_contract_def sample_calls_def)
  with inst have "createCart (sample_calls 0) 7 []
      = Some ([] @ [outcome ''create_cart'' True (sample_calls 0) 7])"
    by blast
  then have k: "createCart (sample_calls 0) 7 []
     = Some [\<lparr>Operation = ''create_cart'', ResponseTime = 2000, Success = False, StatusCode = 0,
         Timestamp = ''t0'', CustomerID = 7\<rparr>]"
    by (simp add: outcome_def sample_calls_def)
  from p q r x c k show ?thesis
    by blast
qed

subsection \<open>A call that fails in transport\<close>

text \<open>
  C3: in a phase of create-cart, add-item or get-cart tasks, let the call of task k
  fail in transport (no response, an error). Then the record of task k has
  success = false, status_code = 0 and the elapsed time read when the call returned;
  every complete run of the phase returns with exactly one record per task, that of k
  and those of all others, in completion order; and such a run exists.
\<close>

theorem transport_failure_is_recorded:
  assumes "k < count" and "resp (calls k) = None" and "err (calls k) \<noteq> None"
    and "\<forall>i<count. client_contract (calls i)"
    and "count \<le> length ids"
    and "task = phase1 calls ids \<and> kind = ''create_cart''
       \<or> task = phase2 calls ids \<and> kind = ''add_items''
       \<or> task = phase3 calls ids \<and> kind = ''get_cart''"
  shows "\<exists>rcd. (\<forall>i<count. \<forall>rs. task i rs = Some (rs @ [rcd i]))
       \<and> rcd k = \<lparr>Operation = kind, ResponseTime = elapsed (calls k) * 1000, Success = False,
                  StatusCode = 0, Timestamp = now (calls k), CustomerID = ids ! k\<rparr>
       \<and> (\<forall>sched out. runConcurrent count task sched rs0 = Some out \<longrightarrow>
            (\<exists>ord. distinct ord \<and> set ord = {..<count} \<and> out = Returns (rs0 @ map rcd ord)))
       \<and> runConcurrent count task (one_by_one count) rs0
            = Some (Returns (rs0 @ map rcd [0..<count]))"
proof -
  define rcd where "rcd i = outcome kind (kind \<noteq> ''get_cart'') (calls i) (ids ! i)" for i
  have ne: "ids \<noteq> []"
    using assms(1,5) by auto
  have md: "i mod length ids = i" if "i < count" for i
    using that assms(5) by simp
  have sh: "\<forall>i<count. \<forall>rs. task i rs = Some (rs @ [rcd i])"
  proof (intro allI impI)
    fix i rs
    assume i: "i < count"
    then have c: "client_contract (calls i)" and l: "i < length ids"
      using assms(4,5) by auto
    from assms(6) show "task i rs = Some (rs @ [rcd i])"
      using phase1_appends [of i ids calls rs, OF l c] phase2_appends [of ids calls i rs, OF ne c]
        phase3_appends [of ids calls i rs, OF ne c] md [OF i]
      by (auto simp: rcd_def)
  qed
  have k: "rcd k = \<lparr>Operation = kind, ResponseTime = elapsed (calls k) * 1000, Success = False,
                  StatusCode = 0, Timestamp = now (calls k), CustomerID = ids ! k\<rparr>"
    using assms(2,3) by (simp add: rcd_def outcome_def)
  have "\<exists>ord. distinct ord \<and> set ord = {..<count} \<and> out = Returns (rs0 @ map rcd ord)"
    if "runConcurrent count task sched rs0 = Some out" for sched out
    using phase_records [OF sh that] .
  with sh k one_by_one_returns [OF sh, of rs0] show ?thesis
    by blast
qed

text \<open>Two get-cart tasks, the call of the first refused by the network.\<close>

theorem transport_failure_is_recorded_witness:
  "resp (sample_calls 0) = None \<and> err (sample_calls 0) = Some ''connection refused''
   \<and> runConcurrent 2 (phase3 sample_calls [7, 8])
       [Spawn, Spawn, Acquire 1, Acquire 0, Task 1, Task 0, Release 0, Release 1, Done 1, Done 0,
        Wait] []
     = Some (Returns
       [\<lparr>Operation = ''get_cart'', ResponseTime = 250, Success = True, StatusCode = 200,
         Timestamp = ''t1'', CustomerID = 8\<rparr>,
        \<lparr>Operation = ''get_cart'', ResponseTime = 2000, Success = False, StatusCode = 0,
         Timestamp = ''t0'', CustomerID = 7\<rparr>])
   \<and> runConcurrent 2 (phase3 sample_calls [7, 8]) (one_by_one 2) []
     = Some (Returns
       [\<lparr>Operation = ''get_cart'', ResponseTime = 2000, Success = False, StatusCode = 0,
         Timestamp = ''t0'', CustomerID = 7\<rparr>,
        \<lparr>Operation = ''get_cart'', ResponseTime = 250, Success = True, StatusCode = 200,
         Timestamp = ''t1'', CustomerID = 8\<rparr>])"
proof -
  have h: "(0::nat) < 2" "resp (sample_calls 0) = None" "err (sample_calls 0) \<noteq> None"
    "\<forall>i<2. client_contract (sample_calls i)" "2 \<le> length [7, 8 :: int]"
    by (simp_all add: sample_calls_def client_contract_def)
  from transport_failure_is_recorded [OF h, of "phase3 sample_calls [7, 8]" "''get_cart''" "[]"]
  obtain rcd where a: "\<forall>i<2. \<forall>rs. phase3 sample_calls [7, 8] i rs = Some (rs @ [rcd i])"
    and k: "rcd 0 = \<lparr>Operation = ''get_cart'', ResponseTime = elapsed (sample_calls 0) * 1000,
         Success = False, StatusCode = 0, Timestamp = now (sample_calls 0),
         CustomerID = [7, 8] ! 0\<rparr>"
    and r: "runConcurrent 2 (phase3 sample_calls [7, 8]) (one_by_one 2) []
         = Some (Returns ([] @ map rcd [0..<2]))"
    by auto
  from a have "phase3 sample_calls [7, 8] 1 [] = Some ([] @ [rcd 1])"
    by simp
  then have "rcd 1 = \<lparr>Operation = ''get_cart'', ResponseTime = 250, Success = True,
      StatusCode = 200, Timestamp = ''t1'', CustomerID = 8\<rparr>"
    by (simp add: phase3_def getCart_def sample_calls_def addResult_def Let_def)
  moreover have "[0..<2] = [0, Suc 0]"
    by (simp add: upt_rec)
  ultimately have "runConcurrent 2 (phase3 sample_calls [7, 8]) (one_by_one 2) []
     = Some (Returns
       [\<lparr>Operation = ''get_cart'', ResponseTime = 2000, Success = False, StatusCode = 0,
         Timestamp = ''t0'', CustomerID = 7\<rparr>,
        \<lparr>Operation = ''get_cart'', ResponseTime = 250, Success = True, StatusCode = 200,
         Timestamp = ''t1'', CustomerID = 8\<rparr>])"
    using r k by (simp add: sample_calls_def)
  moreover have "runConcurrent 2 (phase3 sample_calls [7, 8])
       [Spawn, Spawn, Acquire 1, Acquire 0, Task 1, Task 0, Release 0, Release 1, Done 1, Done 0,
        Wait] []
     = Some (Returns
       [\<lparr>Operation = ''get_cart'', ResponseTime = 250, Success = True, StatusCode = 200,
         Timestamp = ''t1'', CustomerID = 8\<rparr>,
        \<lparr>Operation = ''get_cart'', ResponseTime = 2000, Success = False, StatusCode = 0,
         Timestamp = ''t0'', CustomerID = 7\<rparr>])"
    by (simp add: runConcurrent_def step_def start_def NumWorkers_def phase3_def getCart_def
        sample_calls_def addResult_def Let_def)
  ultimately show ?thesis
    by (simp add: sample_calls_def)
qed

section \<open>Properties of main\<close>

lemma tally_Count: "Count (tally r s) = Count s + 1"
  by (simp add: tally_def Let_def)

lemma scan_Count:
  "Count (scan_results k rs s) = Count s + int (length (filter (\<lambda>r. Operation r = k) rs))"
  by (induction rs arbitrary: s) (simp_all add: tally_Count)

lemma stat_for_Count: "Count (stat_for k rs) = int (length (filter (\<lambda>r. Operation r = k) rs))"
  using scan_Count [of k rs new_stat] by (simp add: stat_for_def Let_def new_stat_def)

lemma sum_of_counts:
  "(\<Sum>k \<in> dom (fst (calculateStatistics rs)). Count (the (fst (calculateStatistics rs) k)))
     = Count (stat_for ''create_cart'' rs) + Count (stat_for ''add_items'' rs)
       + Count (stat_for ''get_cart'' rs)"
proof -
  have d: "dom (fst (calculateStatistics rs)) = {''create_cart'', ''add_items'', ''get_cart''}"
    by (auto simp: stats_lookup opTypes_def dom_def split: if_splits)
  show ?thesis
    unfolding d by (simp add: stats_lookup opTypes_def)
qed

lemma phase1_shape:
  "phase1 calls ids i rs =
     (case (if i < length ids \<and> client_contract (calls i)
            then Some (outcome ''create_cart'' True (calls i) (ids ! i)) else None) of
        None \<Rightarrow> None | Some r \<Rightarrow> Some (rs @ [r]))"
  by (simp add: phase1_def createCart_outcome)

lemma phase2_shape:
  "phase2 calls ids i rs =
     (case (if ids \<noteq> [] \<and> client_contract (calls i)
            then Some (outcome ''add_items'' True (calls i) (ids ! (i mod length ids))) else None) of
        None \<Rightarrow> None | Some r \<Rightarrow> Some (rs @ [r]))"
  by (simp add: phase2_def addItemToCart_outcome)

lemma phase3_shape:
  "phase3 calls ids i rs =
     (case (if ids \<noteq> [] \<and> client_contract (calls i)
            then Some (outcome ''get_cart'' False (calls i) (ids ! (i mod length ids))) else None) of
        None \<Rightarrow> None | Some r \<Rightarrow> Some (rs @ [r]))"
  by (simp add: phase3_def getCart_outcome)

text \<open>
  The records of a phase that has returned: those it started with, then the record
  of each of its tasks, once, in completion order.
\<close>

lemma phase_run:
  assumes sh: "\<And>i rs. taskFunc i rs =
      (case (if ok i then Some (rcd i) else None) of None \<Rightarrow> None | Some r \<Rightarrow> Some (rs @ [r]))"
    and rc: "runConcurrent n taskFunc sched rs0 = Some (Returns rs')"
  shows "\<exists>ord. distinct ord \<and> set ord = {..<n} \<and> rs' = rs0 @ map rcd ord"
proof -
  let ?body = "\<lambda>i. if ok i then Some (rcd i) else None"
  from sh have "\<forall>i<n. \<forall>rs. taskFunc i rs =
      (case ?body i of None \<Rightarrow> None | Some r \<Rightarrow> Some (rs @ [r]))"
    by simp
  from phase_records_gen [OF this rc]
  obtain ord where o: "distinct ord" "set ord = {..<n}" "\<forall>i<n. ?body i \<noteq> None"
    "rs' = rs0 @ map (the \<circ> ?body) ord"
    by blast
  have "map (the \<circ> ?body) ord = map rcd ord"
  proof (rule map_cong [OF refl])
    fix i
    assume "i \<in> set ord"
    with o(2,3) have "?body i \<noteq> None"
      by simp
    then show "(the \<circ> ?body) i = rcd i"
      by (simp split: if_splits)
  qed
  with o show ?thesis
    by auto
qed

lemma length_ids_of: "length (ids_of e) = NumCreateCart"
  by (simp add: ids_of_def)

lemma main_Exit:
  assumes "main e = Some (Exit code rs saved)" and "2 \<le> length (args e)"
    and "testConnectivity (health e) = Some True"
  shows "\<exists>r1 r2.
      runConcurrent NumCreateCart (phase1 (create_calls e) (ids_of e)) (sched1 e) []
        = Some (Returns r1)
    \<and> runConcurrent NumAddItems (phase2 (add_calls e) (ids_of e)) (sched2 e) r1
        = Some (Returns r2)
    \<and> runConcurrent NumGetCart (phase3 (get_calls e) (ids_of e)) (sched3 e) r2
        = Some (Returns rs)
    \<and> code = 0
    \<and> saved = (if file_ok e
              then Some \<lparr>Results = rs, Statistics = fst (calculateStatistics rs)\<rparr> else None)"
  using assms
  by (simp add: main_def Let_def calculateStatistics_def ids_of_def
      split: option.splits phase_end.splits if_splits)

lemma main_Exit0:
  assumes "main e = Some (Exit 0 rs saved)"
  shows "2 \<le> length (args e) \<and> testConnectivity (health e) = Some True"
  using assms
  by (simp add: main_def Let_def calculateStatistics_def
      split: option.splits phase_end.splits if_splits)

text \<open>
  A run of \<open>main\<close> that ends with an exit code after a health check that passed: the
  three calls of \<open>runConcurrent\<close> have returned one after the other, each starting from
  the records the one before left, and the records are those of the tasks.
\<close>

lemma main_runs:
  assumes "main e = Some (Exit code rs saved)" and "2 \<le> length (args e)"
    and "testConnectivity (health e) = Some True"
  shows "\<exists>ord1 ord2 ord3.
       distinct ord1 \<and> set ord1 = {..<NumCreateCart}
     \<and> distinct ord2 \<and> set ord2 = {..<NumAddItems}
     \<and> distinct ord3 \<and> set ord3 = {..<NumGetCart}
     \<and> runConcurrent NumCreateCart (phase1 (create_calls e) (ids_of e)) (sched1 e) []
         = Some (Returns (map (created e) ord1))
     \<and> runConcurrent NumAddItems (phase2 (add_calls e) (ids_of e)) (sched2 e)
           (map (created e) ord1)
         = Some (Returns (map (created e) ord1 @ map (added e) ord2))
     \<and> runConcurrent NumGetCart (phase3 (get_calls e) (ids_of e)) (sched3 e)
           (map (created e) ord1 @ map (added e) ord2)
         = Some (Returns rs)
     \<and> rs = map (created e) ord1 @ map (added e) ord2 @ map (fetched e) ord3"
proof -
  from main_Exit [OF assms] obtain q1 q2 where
    p1: "runConcurrent NumCreateCart (phase1 (create_calls e) (ids_of e)) (sched1 e) []
        = Some (Returns q1)"
    and p2: "runConcurrent NumAddItems (phase2 (add_calls e) (ids_of e)) (sched2 e) q1
        = Some (Returns q2)"
    and p3: "runConcurrent NumGetCart (phase3 (get_calls e) (ids_of e)) (sched3 e) q2
        = Some (Returns rs)"
    by blast
  have n: "ids_of e \<noteq> []" "length (ids_of e) = NumCreateCart"
    by (simp_all add: ids_of_def NumCreateCart_def)
  have s1: "phase1 (create_calls e) (ids_of e) i rs =
      (case (if i < length (ids_of e) \<and> client_contract (create_calls e i)
             then Some (created e i) else None) of
         None \<Rightarrow> None | Some r \<Rightarrow> Some (rs @ [r]))" for i rs
    by (simp add: phase1_shape created_def)
  have s2: "phase2 (add_calls e) (ids_of e) i rs =
      (case (if client_contract (add_calls e i) then Some (added e i) else None) of
         None \<Rightarrow> None | Some r \<Rightarrow> Some (rs @ [r]))" for i rs
    using n by (simp add: phase2_shape added_def)
  have s3: "phase3 (get_calls e) (ids_of e) i rs =
      (case (if client_contract (get_calls e i) then Some (fetched e i) else None) of
         None \<Rightarrow> None | Some r \<Rightarrow> Some (rs @ [r]))" for i rs
    using n by (simp add: phase3_shape fetched_def)
  from phase_run [where ok = "\<lambda>i. i < length (ids_of e) \<and> client_contract (create_calls e i)"
      and rcd = "created e", OF s1 p1]
  obtain ord1 where o1: "distinct ord1" "set ord1 = {..<NumCreateCart}"
    "q1 = map (created e) ord1"
    by auto
  from phase_run [where ok = "\<lambda>i. client_contract (add_calls e i)"
      and rcd = "added e", OF s2 p2]
  obtain ord2 where o2: "distinct ord2" "set ord2 = {..<NumAddItems}"
    "q2 = q1 @ map (added e) ord2"
    by auto
  from phase_run [where ok = "\<lambda>i. client_contract (get_calls e i)"
      and rcd = "fetched e", OF s3 p3]
  obtain ord3 where o3: "distinct ord3" "set ord3 = {..<NumGetCart}"
    "rs = q2 @ map (fetched e) ord3"
    by auto
  from p1 p2 p3 o1 o2 o3 show ?thesis
    by auto
qed

lemma main_no_crash:
  assumes "\<forall>i. client_contract (create_calls e i) \<and> client_contract (add_calls e i)
      \<and> client_contract (get_calls e i)"
    and "2 \<le> length (args e)" and "testConnectivity (health e) = Some True"
  shows "main e \<noteq> Some Crash"
proof -
  have n: "ids_of e \<noteq> []" "length (ids_of e) = NumCreateCart"
    by (simp_all add: ids_of_def NumCreateCart_def)
  have 1: "runConcurrent NumCreateCart (phase1 (create_calls e) (ids_of e)) s rs \<noteq> Some (Panics x)
      \<and> runConcurrent NumCreateCart (phase1 (create_calls e) (ids_of e)) s rs
          \<noteq> Some (ReturnsPanicking x)" for s rs x
    using phase_no_panic [of NumCreateCart "phase1 (create_calls e) (ids_of e)" s rs]
      assms(1) n by (auto simp: phase1_shape)
  have 2: "runConcurrent NumAddItems (phase2 (add_calls e) (ids_of e)) s rs \<noteq> Some (Panics x)
      \<and> runConcurrent NumAddItems (phase2 (add_calls e) (ids_of e)) s rs
          \<noteq> Some (ReturnsPanicking x)" for s rs x
    using phase_no_panic [of NumAddItems "phase2 (add_calls e) (ids_of e)" s rs]
      assms(1) n by (auto simp: phase2_shape)
  have 3: "runConcurrent NumGetCart (phase3 (get_calls e) (ids_of e)) s rs \<noteq> Some (Panics x)
      \<and> runConcurrent NumGetCart (phase3 (get_calls e) (ids_of e)) s rs
          \<noteq> Some (ReturnsPanicking x)" for s rs x
    using phase_no_panic [of NumGetCart "phase3 (get_calls e) (ids_of e)" s rs]
      assms(1) n by (auto simp: phase3_shape)
  show ?thesis
    using assms(2,3)
    by (simp add: main_def Let_def calculateStatistics_def ids_of_def [symmetric] 1 2 3
        split: option.splits phase_end.splits if_splits)
qed

lemma main_one_by_one:
  assumes "\<forall>i. client_contract (create_calls e i) \<and> client_contract (add_calls e i)
      \<and> client_contract (get_calls e i)"
    and "2 \<le> length (args e)" and "testConnectivity (health e) = Some True"
  shows "main (e\<lparr>sched1 := one_by_one NumCreateCart, sched2 := one_by_one NumAddItems,
      sched3 := one_by_one NumGetCart\<rparr>)
    = Some (Exit 0
        (map (created e) [0..<NumCreateCart] @ map (added e) [0..<NumAddItems]
           @ map (fetched e) [0..<NumGetCart])
        (if file_ok e
         then Some \<lparr>Results = map (created e) [0..<NumCreateCart] @ map (added e) [0..<NumAddItems]
                       @ map (fetched e) [0..<NumGetCart],
                     Statistics = fst (calculateStatistics
                       (map (created e) [0..<NumCreateCart] @ map (added e) [0..<NumAddItems]
                          @ map (fetched e) [0..<NumGetCart]))\<rparr>
         else None))"
proof -
  have n: "ids_of e \<noteq> []" "length (ids_of e) = NumCreateCart"
    by (simp_all add: ids_of_def NumCreateCart_def)
  have 1: "\<forall>i<NumCreateCart. \<forall>rs. phase1 (create_calls e) (ids_of e) i rs
      = Some (rs @ [created e i])"
    using assms(1) n by (simp add: phase1_shape created_def)
  have 2: "\<forall>i<NumAddItems. \<forall>rs. phase2 (add_calls e) (ids_of e) i rs
      = Some (rs @ [added e i])"
    using assms(1) n by (simp add: phase2_shape added_def)
  have 3: "\<forall>i<NumGetCart. \<forall>rs. phase3 (get_calls e) (ids_of e) i rs
      = Some (rs @ [fetched e i])"
    using assms(1) n by (simp add: phase3_shape fetched_def)
  show ?thesis
    using assms(2,3)
    by (simp add: main_def Let_def calculateStatistics_def ids_of_def [symmetric]
        one_by_one_returns [OF 1] one_by_one_returns [OF 2] one_by_one_returns [OF 3])
qed

lemma sample_run_ok:
  "\<forall>i. client_contract (create_calls sample_run i) \<and> client_contract (add_calls sample_run i)
      \<and> client_contract (get_calls sample_run i)"
  "2 \<le> length (args sample_run)"
  "testConnectivity (health sample_run) = Some True"
  by (simp_all add: sample_run_def client_contract_def testConnectivity_def)

lemma sample_run_completes:
  "main sample_run
    = Some (Exit 0
        (map (created sample_run) [0..<NumCreateCart] @ map (added sample_run) [0..<NumAddItems]
           @ map (fetched sample_run) [0..<NumGetCart])
        (Some \<lparr>Results = map (created sample_run) [0..<NumCreateCart]
                  @ map (added sample_run) [0..<NumAddItems]
                  @ map (fetched sample_run) [0..<NumGetCart],
                Statistics = fst (calculateStatistics
                  (map (created sample_run) [0..<NumCreateCart]
                     @ map (added sample_run) [0..<NumAddItems]
                     @ map (fetched sample_run) [0..<NumGetCart]))\<rparr>))"
proof -
  have "sample_run\<lparr>sched1 := one_by_one NumCreateCart, sched2 := one_by_one NumAddItems,
      sched3 := one_by_one NumGetCart\<rparr> = sample_run" "file_ok sample_run"
    by (simp_all add: sample_run_def)
  with main_one_by_one [OF sample_run_ok] show ?thesis
    by simp
qed

lemma kinds_of_records:
  "Operation (created e i) = ''create_cart'' \<and> Operation (added e i) = ''add_items''
   \<and> Operation (fetched e i) = ''get_cart''"
  by (simp add: created_def added_def fetched_def outcome_def)

subsection \<open>The health check and the three phases\<close>

text \<open>
  C4: with a base URL on the command line, if the health check fails (a transport
  error, or a response whose status is not 200) the process exits with code 1 before
  any phase: no Outcome Record exists and no report is written. If it succeeds, every
  run that ends with an exit code ends with code 0 after the three phases in order:
  the call of \<open>runConcurrent\<close> for the 50 create-cart tasks has returned from empty
  results, then the one for the 50 add-item tasks from the results the first left, then
  the one for the 50 get-cart tasks from the results the second left, and the final
  results are the record of every create-cart task, then of every add-item task, then
  of every get-cart task, each once, in completion order within its phase. When every
  call honours the client contract, no run ends in a panic, and the run whose
  goroutines go one by one ends with code 0, the records in task order and the report
  of these records and their statistics.
\<close>

theorem health_check_gates_phases:
  assumes "2 \<le> length (args e)"
  shows "(err (health e) \<noteq> None \<or> (\<exists>code. resp (health e) = Some code \<and> code \<noteq> 200)
            \<longrightarrow> main e = Some (Exit 1 [] None))
     \<and> (err (health e) = None \<and> resp (health e) = Some 200 \<longrightarrow>
         (\<forall>code rs file. main e = Some (Exit code rs file) \<longrightarrow>
            code = 0
          \<and> (\<exists>ord1 ord2 ord3.
                 distinct ord1 \<and> set ord1 = {..<NumCreateCart}
               \<and> distinct ord2 \<and> set ord2 = {..<NumAddItems}
               \<and> distinct ord3 \<and> set ord3 = {..<NumGetCart}
               \<and> runConcurrent NumCreateCart (phase1 (create_calls e) (ids_of e)) (sched1 e) []
                   = Some (Returns (map (created e) ord1))
               \<and> runConcurrent NumAddItems (phase2 (add_calls e) (ids_of e)) (sched2 e)
                     (map (created e) ord1)
                   = Some (Returns (map (created e) ord1 @ map (added e) ord2))
               \<and> runConcurrent NumGetCart (phase3 (get_calls e) (ids_of e)) (sched3 e)
                     (map (created e) ord1 @ map (added e) ord2)
                   = Some (Returns rs)
               \<and> rs = map (created e) ord1 @ map (added e) ord2 @ map (fetched e) ord3))
       \<and> (\<forall>i. Operation (created e i) = ''create_cart'' \<and> Operation (added e i) = ''add_items''
               \<and> Operation (fetched e i) = ''get_cart'')
       \<and> ((\<forall>i. client_contract (create_calls e i) \<and> client_contract (add_calls e i)
                \<and> client_contract (get_calls e i)) \<longrightarrow>
            main e \<noteq> Some Crash
          \<and> main (e\<lparr>sched1 := one_by_one NumCreateCart,
                 sched2 := one_by_one NumAddItems, sched3 := one_by_one NumGetCart\<rparr>)
             = Some (Exit 0
                 (map (created e) [0..<NumCreateCart] @ map (added e) [0..<NumAddItems]
                    @ map (fetched e) [0..<NumGetCart])
                 (if file_ok e
                  then Some \<lparr>Results = map (created e) [0..<NumCreateCart]
                                @ map (added e) [0..<NumAddItems]
                                @ map (fetched e) [0..<NumGetCart],
                              Statistics = fst (calculateStatistics
                                (map (created e) [0..<NumCreateCart]
                                   @ map (added e) [0..<NumAddItems]
                                   @ map (fetched e) [0..<NumGetCart]))\<rparr>
                  else None))))"
proof -
  have a: "main e = Some (Exit 1 [] None)"
    if "err (health e) \<noteq> None \<or> (\<exists>code. resp (health e) = Some code \<and> code \<noteq> 200)"
  proof -
    from that have "testConnectivity (health e) = Some False"
      by (auto simp: testConnectivity_def)
    with assms show ?thesis
      by (simp add: main_def)
  qed
  have h: "testConnectivity (health e) = Some True"
    if "err (health e) = None \<and> resp (health e) = Some 200"
    using that by (simp add: testConnectivity_def)
  have b: "code = 0
          \<and> (\<exists>ord1 ord2 ord3.
                 distinct ord1 \<and> set ord1 = {..<NumCreateCart}
               \<and> distinct ord2 \<and> set ord2 = {..<NumAddItems}
               \<and> distinct ord3 \<and> set ord3 = {..<NumGetCart}
               \<and> runConcurrent NumCreateCart (phase1 (create_calls e) (ids_of e)) (sched1 e) []
                   = Some (Returns (map (created e) ord1))
               \<and> runConcurrent NumAddItems (phase2 (add_calls e) (ids_of e)) (sched2 e)
                     (map (created e) ord1)
                   = Some (Returns (map (created e) ord1 @ map (added e) ord2))
               \<and> runConcurrent NumGetCart (phase3 (get_calls e) (ids_of e)) (sched3 e)
                     (map (created e) ord1 @ map (added e) ord2)
                   = Some (Returns rs)
               \<and> rs = map (created e) ord1 @ map (added e) ord2 @ map (fetched e) ord3)"
    if "err (health e) = None \<and> resp (health e) = Some 200" "main e = Some (Exit code rs saved)"
    for code rs saved
    using main_Exit [OF that(2) assms h [OF that(1)]] main_runs [OF that(2) assms h [OF that(1)]]
    by blast
  have c: "main e \<noteq> Some Crash
          \<and> main (e\<lparr>sched1 := one_by_one NumCreateCart,
                 sched2 := one_by_one NumAddItems, sched3 := one_by_one NumGetCart\<rparr>)
             = Some (Exit 0
                 (map (created e) [0..<NumCreateCart] @ map (added e) [0..<NumAddItems]
                    @ map (fetched e) [0..<NumGetCart])
                 (if file_ok e
                  then Some \<lparr>Results = map (created e) [0..<NumCreateCart]
                                @ map (added e) [0..<NumAddItems]
                                @ map (fetched e) [0..<NumGetCart],
                              Statistics = fst (calculateStatistics
                                (map (created e) [0..<NumCreateCart]
                                   @ map (added e) [0..<NumAddItems]
                                   @ map (fetched e) [0..<NumGetCart]))\<rparr>
                  else None))"
    if "err (health e) = None \<and> resp (health e) = Some 200"
      "\<forall>i. client_contract (create_calls e i) \<and> client_contract (add_calls e i)
                \<and> client_contract (get_calls e i)"
    using main_no_crash [OF that(2) assms h [OF that(1)]]
      main_one_by_one [OF that(2) assms h [OF that(1)]]
    by blast
  from a b c kinds_of_records [of e] show ?thesis
    by blast
qed

text \<open>
  A health check answered with status 500 ends the sample run with code 1 and no
  record; answered with 200, the run ends with code 0 and the 150 records.
\<close>

theorem health_check_gates_phases_witness:
  "main (sample_run\<lparr>health := \<lparr>resp = Some 500, err = None, elapsed = 1/100, now = ''t''\<rparr>\<rparr>)
     = Some (Exit 1 [] None)
   \<and> main sample_run
     = Some (Exit 0
        (map (created sample_run) [0..<NumCreateCart] @ map (added sample_run) [0..<NumAddItems]
           @ map (fetched sample_run) [0..<NumGetCart])
        (Some \<lparr>Results = map (created sample_run) [0..<NumCreateCart]
                  @ map (added sample_run) [0..<NumAddItems]
                  @ map (fetched sample_run) [0..<NumGetCart],
                Statistics = fst (calculateStatistics
                  (map (created sample_run) [0..<NumCreateCart]
                     @ map (added sample_run) [0..<NumAddItems]
                     @ map (fetched sample_run) [0..<NumGetCart]))\<rparr>))
   \<and> created sample_run 3
     = \<lparr>Operation = ''create_cart'', ResponseTime = 20, Success = True, StatusCode = 201,
        Timestamp = ''t'', CustomerID = 14245\<rparr>"
proof -
  have "main (sample_run\<lparr>health := \<lparr>resp = Some 500, err = None, elapsed = 1/100, now = ''t''\<rparr>\<rparr>)
     = Some (Exit 1 [] None)"
    using health_check_gates_phases
      [of "sample_run\<lparr>health := \<lparr>resp = Some 500, err = None, elapsed = 1/100, now = ''t''\<rparr>\<rparr>"]
    by (simp add: sample_run_def)
  moreover have "sample_run\<lparr>sched1 := one_by_one NumCreateCart, sched2 := one_by_one NumAddItems,
      sched3 := one_by_one NumGetCart\<rparr> = sample_run" "file_ok sample_run"
      "err (health sample_run) = None \<and> resp (health sample_run) = Some 200"
    by (simp_all add: sample_run_def)
  with health_check_gates_phases [OF sample_run_ok(2)] sample_run_ok(1)
  have "main sample_run
     = Some (Exit 0
        (map (created sample_run) [0..<NumCreateCart] @ map (added sample_run) [0..<NumAddItems]
           @ map (fetched sample_run) [0..<NumGetCart])
        (Some \<lparr>Results = map (created sample_run) [0..<NumCreateCart]
                  @ map (added sample_run) [0..<NumAddItems]
                  @ map (fetched sample_run) [0..<NumGetCart],
                Statistics = fst (calculateStatistics
                  (map (created sample_run) [0..<NumCreateCart]
                     @ map (added sample_run) [0..<NumAddItems]
                     @ map (fetched sample_run) [0..<NumGetCart]))\<rparr>))"
    by simp
  moreover have "[0..<NumCreateCart] ! 3 = 3"
    by (simp add: NumCreateCart_def)
  then have "created sample_run 3
     = \<lparr>Operation = ''create_cart'', ResponseTime = 20, Success = True, StatusCode = 201,
        Timestamp = ''t'', CustomerID = 14245\<rparr>"
    by (simp add: created_def ids_of_def outcome_def sample_run_def NumCreateCart_def)
  ultimately show ?thesis
    by blast
qed

subsection \<open>One record and one count for every task\<close>

text \<open>
  C8: in every run in which the three phases have executed (the only way to exit with
  code 0), each of the three calls of \<open>runConcurrent\<close> has returned, results holds
  exactly the record of each of the 50 + 50 + 50 tasks, once, phase after phase and in
  completion order within a phase; so it holds 150 records, the counts of the
  statistics mapping add up to 150, each kind counting the 50 tasks of its phase, and
  the report saved holds these records and statistics.
\<close>

theorem every_task_counted:
  assumes "main e = Some (Exit 0 rs file)"
  shows "(\<exists>ord1 ord2 ord3.
             distinct ord1 \<and> set ord1 = {..<NumCreateCart}
           \<and> distinct ord2 \<and> set ord2 = {..<NumAddItems}
           \<and> distinct ord3 \<and> set ord3 = {..<NumGetCart}
           \<and> runConcurrent NumCreateCart (phase1 (create_calls e) (ids_of e)) (sched1 e) []
               = Some (Returns (map (created e) ord1))
           \<and> runConcurrent NumAddItems (phase2 (add_calls e) (ids_of e)) (sched2 e)
                 (map (created e) ord1)
               = Some (Returns (map (created e) ord1 @ map (added e) ord2))
           \<and> runConcurrent NumGetCart (phase3 (get_calls e) (ids_of e)) (sched3 e)
                 (map (created e) ord1 @ map (added e) ord2)
               = Some (Returns rs)
           \<and> rs = map (created e) ord1 @ map (added e) ord2 @ map (fetched e) ord3)
     \<and> length rs = TotalOps \<and> TotalOps = 150
     \<and> (\<Sum>k \<in> dom (fst (calculateStatistics rs)). Count (the (fst (calculateStatistics rs) k)))
         = int TotalOps
     \<and> map_option Count (fst (calculateStatistics rs) ''create_cart'') = Some (int NumCreateCart)
     \<and> map_option Count (fst (calculateStatistics rs) ''add_items'') = Some (int NumAddItems)
     \<and> map_option Count (fst (calculateStatistics rs) ''get_cart'') = Some (int NumGetCart)
     \<and> file = (if file_ok e
               then Some \<lparr>Results = rs, Statistics = fst (calculateStatistics rs)\<rparr> else None)"
proof -
  note h = main_Exit0 [OF assms]
  from main_runs [OF assms] h obtain ord1 ord2 ord3 where o:
    "distinct ord1" "set ord1 = {..<NumCreateCart}"
    "distinct ord2" "set ord2 = {..<NumAddItems}"
    "distinct ord3" "set ord3 = {..<NumGetCart}"
    "runConcurrent NumCreateCart (phase1 (create_calls e) (ids_of e)) (sched1 e) []
       = Some (Returns (map (created e) ord1))"
    "runConcurrent NumAddItems (phase2 (add_calls e) (ids_of e)) (sched2 e)
         (map (created e) ord1)
       = Some (Returns (map (created e) ord1 @ map (added e) ord2))"
    "runConcurrent NumGetCart (phase3 (get_calls e) (ids_of e)) (sched3 e)
         (map (created e) ord1 @ map (added e) ord2)
       = Some (Returns rs)"
    and r: "rs = map (created e) ord1 @ map (added e) ord2 @ map (fetched e) ord3"
    by blast
  have n: "length ord1 = NumCreateCart" "length ord2 = NumAddItems" "length ord3 = NumGetCart"
    using distinct_card [OF o(1)] distinct_card [OF o(3)] distinct_card [OF o(5)] o(2,4,6)
    by simp_all
  have c: "length (filter (\<lambda>r. Operation r = ''create_cart'') rs) = NumCreateCart"
    using n by (simp add: r filter_map comp_def kinds_of_records)
  have a: "length (filter (\<lambda>r. Operation r = ''add_items'') rs) = NumAddItems"
    using n by (simp add: r filter_map comp_def kinds_of_records)
  have g: "length (filter (\<lambda>r. Operation r = ''get_cart'') rs) = NumGetCart"
    using n by (simp add: r filter_map comp_def kinds_of_records)
  have l: "length rs = TotalOps"
    using n by (simp add: r TotalOps_def)
  have t: "TotalOps = 150"
    by (simp add: TotalOps_def NumCreateCart_def NumAddItems_def NumGetCart_def)
  have s: "(\<Sum>k \<in> dom (fst (calculateStatistics rs)). Count (the (fst (calculateStatistics rs) k)))
         = int TotalOps"
    by (simp add: sum_of_counts stat_for_Count c a g TotalOps_def)
  have k: "map_option Count (fst (calculateStatistics rs) ''create_cart'') = Some (int NumCreateCart)"
    "map_option Count (fst (calculateStatistics rs) ''add_items'') = Some (int NumAddItems)"
    "map_option Count (fst (calculateStatistics rs) ''get_cart'') = Some (int NumGetCart)"
    by (simp_all add: stats_lookup opTypes_def stat_for_Count c a g)
  have f: "file = (if file_ok e
               then Some \<lparr>Results = rs, Statistics = fst (calculateStatistics rs)\<rparr> else None)"
    using main_Exit [OF assms] h by blast
  from o r l t s k f show ?thesis
    by blast
qed

text \<open>The sample run: 150 records, counted 50 + 50 + 50.\<close>

theorem every_task_counted_witness:
  "main sample_run
     = Some (Exit 0
        (map (created sample_run) [0..<NumCreateCart] @ map (added sample_run) [0..<NumAddItems]
           @ map (fetched sample_run) [0..<NumGetCart])
        (Some \<lparr>Results = map (created sample_run) [0..<NumCreateCart]
                  @ map (added sample_run) [0..<NumAddItems]
                  @ map (fetched sample_run) [0..<NumGetCart],
                Statistics = fst (calculateStatistics
                  (map (created sample_run) [0..<NumCreateCart]
                     @ map (added sample_run) [0..<NumAddItems]
                     @ map (fetched sample_run) [0..<NumGetCart]))\<rparr>))
   \<and> length (map (created sample_run) [0..<NumCreateCart] @ map (added sample_run) [0..<NumAddItems]
           @ map (fetched sample_run) [0..<NumGetCart]) = 150
   \<and> (\<Sum>k \<in> dom (fst (calculateStatistics
          (map (created sample_run) [0..<NumCreateCart] @ map (added sample_run) [0..<NumAddItems]
             @ map (fetched sample_run) [0..<NumGetCart]))).
        Count (the (fst (calculateStatistics
          (map (created sample_run) [0..<NumCreateCart] @ map (added sample_run) [0..<NumAddItems]
             @ map (fetched sample_run) [0..<NumGetCart])) k))) = 150
   \<and> map_option Count (fst (calculateStatistics
        (map (created sample_run) [0..<NumCreateCart] @ map (added sample_run) [0..<NumAddItems]
           @ map (fetched sample_run) [0..<NumGetCart])) ''create_cart'') = Some 50
   \<and> map_option Count (fst (calculateStatistics
        (map (created sample_run) [0..<NumCreateCart] @ map (added sample_run) [0..<NumAddItems]
           @ map (fetched sample_run) [0..<NumGetCart])) ''add_items'') = Some 50
   \<and> map_option Count (fst (calculateStatistics
        (map (created sample_run) [0..<NumCreateCart] @ map (added sample_run) [0..<NumAddItems]
           @ map (fetched sample_run) [0..<NumGetCart])) ''get_cart'') = Some 50"
proof -
  note m = sample_run_completes
  note inst = every_task_counted [OF m]
  from inst have l: "length (map (created sample_run) [0..<NumCreateCart]
      @ map (added sample_run) [0..<NumAddItems] @ map (fetched sample_run) [0..<NumGetCart]) = 150"
    by simp
  from inst have s: "(\<Sum>k \<in> dom (fst (calculateStatistics
          (map (created sample_run) [0..<NumCreateCart] @ map (added sample_run) [0..<NumAddItems]
             @ map (fetched sample_run) [0..<NumGetCart]))).
        Count (the (fst (calculateStatistics
          (map (created sample_run) [0..<NumCreateCart] @ map (added sample_run) [0..<NumAddItems]
             @ map (fetched sample_run) [0..<NumGetCart])) k))) = 150"
    by simp
  from inst have k: "map_option Count (fst (calculateStatistics
        (map (created sample_run) [0..<NumCreateCart] @ map (added sample_run) [0..<NumAddItems]
           @ map (fetched sample_run) [0..<NumGetCart])) ''create_cart'') = Some 50"
    "map_option Count (fst (calculateStatistics
        (map (created sample_run) [0..<NumCreateCart] @ map (added sample_run) [0..<NumAddItems]
           @ map (fetched sample_run) [0..<NumGetCart])) ''add_items'') = Some 50"
    "map_option Count (fst (calculateStatistics
        (map (created sample_run) [0..<NumCreateCart] @ map (added sample_run) [0..<NumAddItems]
           @ map (fetched sample_run) [0..<NumGetCart])) ''get_cart'') = Some 50"
    by (simp_all add: NumCreateCart_def NumAddItems_def NumGetCart_def)
  from m l s k show ?thesis
    by blast
qed

section \<open>Properties of createShoppingCart\<close>

text \<open>
  C10 as stated fails: with no cart stored for customer 7 and a PutItem that returns
  an error, the handler answers 500 and no cart is stored.
\<close>

theorem failed_write_is_500:
  "createShoppingCart
     \<lparr>bound = Some 7, get_err = False, marshal_err = False, put_err = True,
      clock1 = ''t1'', clock2 = ''t2''\<rparr>
     \<lparr>carts = Map.empty, put_log = []\<rparr>
   = ((500, [''error'' \<mapsto> JStr ''Failed to create cart'']),
      \<lparr>carts = Map.empty,
       put_log = [\<lparr>CustomerID' = 7, Items = [], CreatedAt = ''t1'', UpdatedAt = ''t2''\<rparr>]\<rparr>)"
  by (simp add: createShoppingCart_def)

text \<open>
  C10 amended: for every POST /shopping-carts whose customer_id binds and whose read of
  the store succeeds: if the read finds a cart for that customer, the handler answers
  200 with the "already exists" message, issues no write and leaves the store as it
  was; if it finds none, the handler issues one write of a new cart with an empty
  items list, and answers 201 with that cart stored when marshalling and the write
  succeed, 500 with the table unchanged when one of them fails.
\<close>

theorem create_cart_once:
  assumes "bound q = Some cid" and "\<not> get_err q"
  shows "(carts db cid \<noteq> None \<longrightarrow>
            createShoppingCart q db
              = ((200, [''message'' \<mapsto> JStr ''Shopping cart already exists for this customer'',
                        ''id'' \<mapsto> JInt cid, ''customer_id'' \<mapsto> JInt cid]), db))
       \<and> (carts db cid = None \<and> \<not> marshal_err q \<and> \<not> put_err q \<longrightarrow>
            fst (fst (createShoppingCart q db)) = 201
          \<and> carts (snd (createShoppingCart q db))
              = (carts db)(cid \<mapsto> \<lparr>CustomerID' = cid, Items = [],
                                    CreatedAt = clock1 q, UpdatedAt = clock2 q\<rparr>)
          \<and> put_log (snd (createShoppingCart q db))
              = put_log db @ [\<lparr>CustomerID' = cid, Items = [],
                               CreatedAt = clock1 q, UpdatedAt = clock2 q\<rparr>])
       \<and> (carts db cid = None \<and> (marshal_err q \<or> put_err q) \<longrightarrow>
            fst (fst (createShoppingCart q db)) = 500
          \<and> carts (snd (createShoppingCart q db)) = carts db)"
  using assms by (auto simp: createShoppingCart_def Let_def)

theorem create_cart_once_witness:
  "createShoppingCart
     \<lparr>bound = Some 7, get_err = False, marshal_err = False, put_err = False,
      clock1 = ''t1'', clock2 = ''t2''\<rparr>
     \<lparr>carts = Map.empty, put_log = []\<rparr>
   = ((201, [''id'' \<mapsto> JInt 7, ''customer_id'' \<mapsto> JInt 7,
             ''message'' \<mapsto> JStr ''shopping cart created for customer 7'',
             ''created_at'' \<mapsto> JStr ''t1'']),
      \<lparr>carts = [7 \<mapsto> \<lparr>CustomerID' = 7, Items = [], CreatedAt = ''t1'', UpdatedAt = ''t2''\<rparr>],
       put_log = [\<lparr>CustomerID' = 7, Items = [], CreatedAt = ''t1'', UpdatedAt = ''t2''\<rparr>]\<rparr>)
   \<and> fst (createShoppingCart
     \<lparr>bound = Some 7, get_err = False, marshal_err = False, put_err = False,
      clock1 = ''t3'', clock2 = ''t4''\<rparr>
     \<lparr>carts = [7 \<mapsto> \<lparr>CustomerID' = 7, Items = [], CreatedAt = ''t1'', UpdatedAt = ''t2''\<rparr>],
      put_log = []\<rparr>)
   = (200, [''message'' \<mapsto> JStr ''Shopping cart already exists for this customer'',
            ''id'' \<mapsto> JInt 7, ''customer_id'' \<mapsto> JInt 7])"
proof -
  let ?q = "\<lparr>bound = Some 7, get_err = False, marshal_err = False, put_err = False,
      clock1 = ''t1'', clock2 = ''t2''\<rparr>"
  let ?q' = "\<lparr>bound = Some 7, get_err = False, marshal_err = False, put_err = False,
      clock1 = ''t3'', clock2 = ''t4''\<rparr>"
  have h: "bound ?q = Some 7" "\<not> get_err ?q"
    by simp_all
  have h': "bound ?q' = Some 7" "\<not> get_err ?q'"
    by simp_all
  from create_cart_once [OF h, of "\<lparr>carts = Map.empty, put_log = []\<rparr>"]
    create_cart_once [OF h', of "\<lparr>carts = [7 \<mapsto> \<lparr>CustomerID' = 7, Items = [],
        CreatedAt = ''t1'', UpdatedAt = ''t2''\<rparr>], put_log = []\<rparr>"]
  show ?thesis
    by (simp add: createShoppingCart_def Let_def Itoa_def digits.simps)
qed

end
